theory Spec2Isabelle
  imports Main "HOL-Library.Word" "HOL-Library.List_Lexorder"
begin

section \<open>JavaScript strings and the built-ins the class calls\<close>

text \<open>
  A JavaScript string is a sequence of 16-bit code units; \<open>js\<close> writes an ASCII
  literal as such a sequence.  The order on strings that \<open>Array.prototype.sort\<close> uses
  without a comparator is the lexicographic order on code units, which is the order of
  lists over the linear order of \<open>16 word\<close>.
\<close>

type_synonym jsstring = "16 word list"

definition js :: "string \<Rightarrow> jsstring" where
  "js s = map of_char s"

datatype error = URIError | TypeError

text \<open>\<open>s.split(sep)\<close> for a one-character separator: never an empty array.\<close>

fun str_split :: "16 word \<Rightarrow> jsstring \<Rightarrow> jsstring list" where
  "str_split sep [] = [[]]"
| "str_split sep (c # s) =
     (if c = sep then [] # str_split sep s
      else (case str_split sep s of
              [] \<Rightarrow> [[c]]
            | x # xs \<Rightarrow> (c # x) # xs))"

text \<open>\<open>xs.join(sep)\<close>.\<close>

fun str_join :: "jsstring \<Rightarrow> jsstring list \<Rightarrow> jsstring" where
  "str_join sep [] = []"
| "str_join sep [x] = x"
| "str_join sep (x # y # ys) = x @ sep @ str_join sep (y # ys)"

text \<open>\<open>s.replace(/c/g, rep)\<close> for a pattern that is one literal character.\<close>

definition replace_char :: "16 word \<Rightarrow> jsstring \<Rightarrow> jsstring \<Rightarrow> jsstring" where
  "replace_char c rep s = concat (map (\<lambda>x. if x = c then rep else [x]) s)"

subsection \<open>decodeURIComponent\<close>

text \<open>
  ECMAScript's \<open>Decode\<close> with an empty reserved set.  A code unit other than \<open>%\<close> is
  copied.  At a \<open>%\<close> two hexadecimal digits must follow; an octet below 128 is the code
  unit itself, a leading octet of a UTF-8 sequence of two to four octets must be followed
  by that many escaped continuation octets, and the sequence must be the shortest
  encoding of a code point that is no surrogate and at most 0x10FFFF.  The code point is
  written as one code unit or as a surrogate pair.  Everything else raises URIError.
\<close>

definition hex_val :: "16 word \<Rightarrow> nat option" where
  "hex_val c =
     (let n = unat c in
      if 48 \<le> n \<and> n \<le> 57 then Some (n - 48)
      else if 65 \<le> n \<and> n \<le> 70 then Some (n - 55)
      else if 97 \<le> n \<and> n \<le> 102 then Some (n - 87)
      else None)"

fun percent_octet :: "jsstring \<Rightarrow> (nat \<times> jsstring) option" where
  "percent_octet (p # h # l # rest) =
     (if p = 0x25 then
        (case hex_val h of
           None \<Rightarrow> None
         | Some a \<Rightarrow> (case hex_val l of
                       None \<Rightarrow> None
                     | Some b \<Rightarrow> Some (16 * a + b, rest)))
      else None)"
| "percent_octet _ = None"

definition continuation_octet :: "jsstring \<Rightarrow> (nat \<times> jsstring) option" where
  "continuation_octet s =
     (case percent_octet s of
        None \<Rightarrow> None
      | Some (b, rest) \<Rightarrow> if 128 \<le> b \<and> b < 192 then Some (b, rest) else None)"

definition utf16_units :: "nat \<Rightarrow> jsstring" where
  "utf16_units v =
     (if v < 65536 then [of_nat v]
      else [of_nat (55296 + (v - 65536) div 1024), of_nat (56320 + (v - 65536) mod 1024)])"

definition two_octets :: "nat \<Rightarrow> jsstring \<Rightarrow> (jsstring \<times> jsstring) option" where
  "two_octets b s =
     (case continuation_octet s of
        None \<Rightarrow> None
      | Some (b1, r1) \<Rightarrow>
          (let v = (b mod 32) * 64 + b1 mod 64
           in if 128 \<le> v then Some (utf16_units v, r1) else None))"

definition three_octets :: "nat \<Rightarrow> jsstring \<Rightarrow> (jsstring \<times> jsstring) option" where
  "three_octets b s =
     (case continuation_octet s of
        None \<Rightarrow> None
      | Some (b1, r1) \<Rightarrow>
          (case continuation_octet r1 of
             None \<Rightarrow> None
           | Some (b2, r2) \<Rightarrow>
               (let v = (b mod 16) * 4096 + (b1 mod 64) * 64 + b2 mod 64
                in if 2048 \<le> v \<and> \<not> (55296 \<le> v \<and> v < 57344)
                   then Some (utf16_units v, r2) else None)))"

definition four_octets :: "nat \<Rightarrow> jsstring \<Rightarrow> (jsstring \<times> jsstring) option" where
  "four_octets b s =
     (case continuation_octet s of
        None \<Rightarrow> None
      | Some (b1, r1) \<Rightarrow>
          (case continuation_octet r1 of
             None \<Rightarrow> None
           | Some (b2, r2) \<Rightarrow>
               (case continuation_octet r2 of
                  None \<Rightarrow> None
                | Some (b3, r3) \<Rightarrow>
                    (let v = (b mod 8) * 262144 + (b1 mod 64) * 4096 + (b2 mod 64) * 64
                             + b3 mod 64
                     in if 65536 \<le> v \<and> v < 1114112
                        then Some (utf16_units v, r3) else None))))"

definition escape_sequence :: "jsstring \<Rightarrow> (jsstring \<times> jsstring) option" where
  "escape_sequence s =
     (case percent_octet s of
        None \<Rightarrow> None
      | Some (b, rest) \<Rightarrow>
          if b < 128 then Some ([of_nat b], rest)
          else if b < 192 \<or> 248 \<le> b then None
          else if b < 224 then two_octets b rest
          else if b < 240 then three_octets b rest
          else four_octets b rest)"

lemma percent_octet_shorter:
  "percent_octet s = Some (b, rest) \<Longrightarrow> length rest < length s"
  by (induction s rule: percent_octet.induct) (auto split: if_splits option.splits)

lemma continuation_octet_shorter:
  "continuation_octet s = Some (b, rest) \<Longrightarrow> length rest < length s"
  unfolding continuation_octet_def
  by (auto split: option.splits if_splits dest: percent_octet_shorter)

lemma escape_sequence_shorter:
  "escape_sequence s = Some (units, rest) \<Longrightarrow> length rest < length s"
  unfolding escape_sequence_def two_octets_def three_octets_def four_octets_def Let_def
  by (fastforce split: option.splits prod.splits if_splits
      dest: percent_octet_shorter continuation_octet_shorter)

function decodeURIComponent :: "jsstring \<Rightarrow> error + jsstring" where
  "decodeURIComponent [] = Inr []"
| "decodeURIComponent (c # s) =
     (if c \<noteq> 0x25 then
        (case decodeURIComponent s of
           Inl e \<Rightarrow> Inl e
         | Inr r \<Rightarrow> Inr (c # r))
      else
        (case escape_sequence (c # s) of
           None \<Rightarrow> Inl URIError
         | Some (units, rest) \<Rightarrow>
             (case decodeURIComponent rest of
                Inl e \<Rightarrow> Inl e
              | Inr r \<Rightarrow> Inr (units @ r))))"
  by pat_completeness auto
termination
  by (relation "measure length") (auto dest: escape_sequence_shorter)

subsection \<open>encodeURIComponent\<close>

text \<open>
  ECMAScript's \<open>Encode\<close> with the unreserved set of \<open>encodeURIComponent\<close>: letters,
  digits and \<open>- _ . ! ~ * ' ( )\<close> are copied; any other code point is written as the
  escaped octets of its UTF-8 encoding, in upper-case hexadecimal.  A surrogate that is
  not part of a pair raises URIError.
\<close>

definition uri_unescaped :: "16 word \<Rightarrow> bool" where
  "uri_unescaped c =
     (let n = unat c in
      (65 \<le> n \<and> n \<le> 90) \<or> (97 \<le> n \<and> n \<le> 122) \<or> (48 \<le> n \<and> n \<le> 57) \<or>
      n \<in> {45, 95, 46, 33, 126, 42, 39, 40, 41})"

definition hex_digit :: "nat \<Rightarrow> 16 word" where
  "hex_digit n = (if n < 10 then of_nat (48 + n) else of_nat (55 + n))"

definition escape_octet :: "nat \<Rightarrow> jsstring" where
  "escape_octet b = [0x25, hex_digit (b div 16), hex_digit (b mod 16)]"

definition utf8_octets :: "nat \<Rightarrow> nat list" where
  "utf8_octets v =
     (if v < 128 then [v]
      else if v < 2048 then [192 + v div 64, 128 + v mod 64]
      else if v < 65536 then [224 + v div 4096, 128 + (v div 64) mod 64, 128 + v mod 64]
      else [240 + v div 262144, 128 + (v div 4096) mod 64, 128 + (v div 64) mod 64,
            128 + v mod 64])"

definition escape_code_point :: "nat \<Rightarrow> jsstring" where
  "escape_code_point v = concat (map escape_octet (utf8_octets v))"

definition high_surrogate :: "16 word \<Rightarrow> bool" where
  "high_surrogate c = (55296 \<le> unat c \<and> unat c < 56320)"

definition low_surrogate :: "16 word \<Rightarrow> bool" where
  "low_surrogate c = (56320 \<le> unat c \<and> unat c < 57344)"

fun encodeURIComponent :: "jsstring \<Rightarrow> error + jsstring" where
  "encodeURIComponent [] = Inr []"
| "encodeURIComponent (c # s) =
     (if uri_unescaped c then
        (case encodeURIComponent s of
           Inl e \<Rightarrow> Inl e
         | Inr r \<Rightarrow> Inr (c # r))
      else if low_surrogate c then Inl URIError
      else if \<not> high_surrogate c then
        (case encodeURIComponent s of
           Inl e \<Rightarrow> Inl e
         | Inr r \<Rightarrow> Inr (escape_code_point (unat c) @ r))
      else
        (case s of
           [] \<Rightarrow> Inl URIError
         | k # s' \<Rightarrow>
             if \<not> low_surrogate k then Inl URIError
             else
               (case encodeURIComponent s' of
                  Inl e \<Rightarrow> Inl e
                | Inr r \<Rightarrow>
                    Inr (escape_code_point
                           ((unat c - 55296) * 1024 + (unat k - 56320) + 65536) @ r))))"

section \<open>The object behind the field \<open>secret\<close>\<close>

text \<open>
  \<open>secret\<close> is an ordinary object created by \<open>{}\<close>.  Its own properties are kept in
  creation order, each holding an array of strings.  Its prototype is
  \<open>Object.prototype\<close> (\<open>proto = None\<close>) until an assignment to the key \<open>__proto__\<close>,
  which runs the inherited setter and installs the assigned array as the prototype
  (\<open>proto = Some a\<close>).  Property names are found along the prototype chain, so the lists
  of the names that \<open>Object.prototype\<close> and \<open>Array.prototype\<close> define (ECMAScript
  2023, with the legacy accessors of Annex B) are part of the model.
\<close>

record object =
  own :: "(jsstring \<times> jsstring list) list"
  proto :: "jsstring list option"

type_synonym URLSearch = object

definition empty_object :: object where
  "empty_object = \<lparr>own = [], proto = None\<rparr>"

definition object_prototype_names :: "jsstring list" where
  "object_prototype_names = map js
     [''constructor'', ''__defineGetter__'', ''__defineSetter__'', ''hasOwnProperty'',
      ''__lookupGetter__'', ''__lookupSetter__'', ''isPrototypeOf'',
      ''propertyIsEnumerable'', ''toString'', ''valueOf'', ''__proto__'',
      ''toLocaleString'']"

definition array_prototype_names :: "jsstring list" where
  "array_prototype_names = map js
     [''at'', ''concat'', ''constructor'', ''copyWithin'', ''entries'', ''every'', ''fill'',
      ''filter'', ''find'', ''findIndex'', ''findLast'', ''findLastIndex'', ''flat'',
      ''flatMap'', ''forEach'', ''includes'', ''indexOf'', ''join'', ''keys'',
      ''lastIndexOf'', ''map'', ''pop'', ''push'', ''reduce'', ''reduceRight'', ''reverse'',
      ''shift'', ''slice'', ''some'', ''sort'', ''splice'', ''toLocaleString'',
      ''toReversed'', ''toSorted'', ''toSpliced'', ''toString'', ''unshift'', ''values'',
      ''with'']"

text \<open>
  An array index is the canonical decimal numeral of an integer below \<open>2^32 - 1\<close>.
  \<open>OrdinaryOwnPropertyKeys\<close>, which \<open>for ... in\<close> follows, lists the own keys that are
  array indices first, in ascending numeric order, and then the other keys in creation
  order.
\<close>

definition is_digit :: "16 word \<Rightarrow> bool" where
  "is_digit c = (48 \<le> unat c \<and> unat c \<le> 57)"

definition decimal :: "jsstring \<Rightarrow> nat" where
  "decimal s = foldl (\<lambda>n c. 10 * n + (unat c - 48)) 0 s"

definition array_index :: "jsstring \<Rightarrow> nat option" where
  "array_index s =
     (case s of
        [] \<Rightarrow> None
      | c # r \<Rightarrow>
          if list_all is_digit s \<and> (r = [] \<or> c \<noteq> 48) \<and> decimal s < 4294967295
          then Some (decimal s) else None)"

definition is_index :: "jsstring \<Rightarrow> bool" where
  "is_index k = (array_index k \<noteq> None)"

definition index_of :: "jsstring \<Rightarrow> nat" where
  "index_of k = (case array_index k of None \<Rightarrow> 0 | Some i \<Rightarrow> i)"

definition own_keys :: "object \<Rightarrow> jsstring list" where
  "own_keys s =
     (let ks = map fst (own s)
      in sort_key index_of (filter is_index ks) @ filter (\<lambda>k. \<not> is_index k) ks)"

text \<open>
  What \<open>secret[name]\<close> evaluates to: an own array, the array installed as prototype
  (under the key \<open>__proto__\<close>), one of its elements or its length, a built-in member
  (an inherited function, or \<open>Object.prototype\<close> itself under \<open>__proto__\<close>), or
  \<open>undefined\<close>.  The key \<open>__proto__\<close> is never an own property, since assigning to
  it runs the inherited setter; it is resolved first.
\<close>

datatype slot =
    Missing
  | OwnArr "jsstring list"
  | ProtoArr "jsstring list"
  | Elem jsstring
  | Len nat
  | Builtin

definition inherited :: "jsstring \<Rightarrow> object \<Rightarrow> slot" where
  "inherited name s =
     (case proto s of
        None \<Rightarrow> if name \<in> set object_prototype_names then Builtin else Missing
      | Some a \<Rightarrow>
          if is_index name \<and> index_of name < length a then Elem (a ! index_of name)
          else if name = js ''length'' then Len (length a)
          else if name \<in> set array_prototype_names \<or> name \<in> set object_prototype_names
          then Builtin
          else Missing)"

definition lookup :: "jsstring \<Rightarrow> object \<Rightarrow> slot" where
  "lookup name s =
     (if name = js ''__proto__'' then
        (case proto s of None \<Rightarrow> Builtin | Some a \<Rightarrow> ProtoArr a)
      else
        (case map_of (own s) name of
           Some vs \<Rightarrow> OwnArr vs
         | None \<Rightarrow> inherited name s))"

text \<open>JavaScript truthiness of such a value.\<close>

fun slot_truthy :: "slot \<Rightarrow> bool" where
  "slot_truthy Missing = False"
| "slot_truthy (OwnArr vs) = True"
| "slot_truthy (ProtoArr a) = True"
| "slot_truthy (Elem str) = (str \<noteq> [])"
| "slot_truthy (Len n) = (n \<noteq> 0)"
| "slot_truthy Builtin = True"

text \<open>
  \<open>secret[name] = vs\<close>: the key \<open>__proto__\<close> replaces the prototype; an own key keeps
  its place; any other key becomes a new own property, created last.
\<close>

fun put :: "jsstring \<Rightarrow> jsstring list \<Rightarrow> (jsstring \<times> jsstring list) list
    \<Rightarrow> (jsstring \<times> jsstring list) list" where
  "put k vs [] = [(k, vs)]"
| "put k vs (p # ps) = (if fst p = k then (k, vs) # ps else p # put k vs ps)"

definition assign :: "jsstring \<Rightarrow> jsstring list \<Rightarrow> object \<Rightarrow> object" where
  "assign name vs s =
     (if name = js ''__proto__'' then s\<lparr>proto := Some vs\<rparr>
      else s\<lparr>own := put name vs (own s)\<rparr>)"

section \<open>The class URLSearch\<close>

text \<open>
  Values that cross the interface: \<open>undefined\<close>, \<open>null\<close>, a string, an array of
  strings, or any other value that is neither a string nor iterable (a number such as the
  \<open>20\<close> of \<open>['age', 20]\<close>, a boolean, a plain object), given by its truthiness and by the
  string that \<open>'' + value\<close> yields.
\<close>

datatype jsval = Undefined | Null | Str jsstring | Arr "jsstring list" | Other bool jsstring

fun truthy :: "jsval \<Rightarrow> bool" where
  "truthy Undefined = False"
| "truthy Null = False"
| "truthy (Str v) = (v \<noteq> [])"
| "truthy (Arr vs) = True"
| "truthy (Other t str) = t"

text \<open>\<open>'' + value\<close>.\<close>

fun to_string :: "jsval \<Rightarrow> jsstring" where
  "to_string Undefined = js ''undefined''"
| "to_string Null = js ''null''"
| "to_string (Str v) = v"
| "to_string (Arr vs) = str_join (js '','') vs"
| "to_string (Other t str) = str"

subsection \<open>append (src/url-search.ts, lines 56 to 68)\<close>

text \<open>
  One turn of the loop of \<open>append\<close>:
  \<open>this.secret[name].push(decodeURIComponent((val + '').replace(/\+/g, '')))\<close>.
  The argument is evaluated before the call, so a malformed escape raises URIError even
  where \<open>push\<close> is no function; otherwise a value that has no \<open>push\<close> raises TypeError.
\<close>

definition push_value :: "jsstring \<Rightarrow> jsstring \<Rightarrow> object \<Rightarrow> error option \<times> object" where
  "push_value name val s =
     (case decodeURIComponent (replace_char 0x2B [] val) of
        Inl e \<Rightarrow> (Some e, s)
      | Inr d \<Rightarrow>
          (case lookup name s of
             OwnArr vs \<Rightarrow> (None, s\<lparr>own := put name (vs @ [d]) (own s)\<rparr>)
           | ProtoArr a \<Rightarrow> (None, s\<lparr>proto := Some (a @ [d])\<rparr>)
           | _ \<Rightarrow> (Some TypeError, s)))"

fun push_values :: "jsstring \<Rightarrow> jsstring list \<Rightarrow> object \<Rightarrow> error option \<times> object" where
  "push_values name [] s = (None, s)"
| "push_values name (val # vals) s =
     (case push_value name val s of
        (Some e, s') \<Rightarrow> (Some e, s')
      | (None, s') \<Rightarrow> push_values name vals s')"

text \<open>
  \<open>append\<close> (here \<open>append_js\<close>, as \<open>set\<close> is \<open>set_js\<close> and \<open>sort\<close> is \<open>sort_js\<close>)
  returns the raised error, if any, with the state it leaves behind: the
  values pushed before the error stay. A string is wrapped in an array; any other value
  is iterated as it is by \<open>for (const val of vals)\<close>, which raises TypeError on a value
  that is not iterable, after \<open>this.secret[name] = []\<close> has been done.
\<close>

definition append_js :: "jsstring \<Rightarrow> jsval \<Rightarrow> URLSearch \<Rightarrow> error option \<times> URLSearch" where
  "append_js name values s =
     (if name = [] \<or> \<not> truthy values then (None, s)
      else
        (let s1 = (if \<not> slot_truthy (lookup name s) then assign name [] s else s)
         in (case values of
               Str v \<Rightarrow> push_values name [v] s1
             | Arr vs \<Rightarrow> push_values name vs s1
             | _ \<Rightarrow> (Some TypeError, s1))))"

subsection \<open>The constructor (lines 17 to 47)\<close>

text \<open>
  The argument by the tag that \<open>{}.toString.call(query)\<close> gives: a string, an array of
  pairs, an object, no argument, or anything else. An object is given by whether its
  prototype is \<open>Object.prototype\<close> (\<open>False\<close> for an object without prototype, as
  \<open>Object.create(null)\<close> makes) and by its own enumerable properties in enumeration order.
\<close>

datatype query =
    NoQuery
  | QString jsstring
  | QArray "(jsstring \<times> jsval) list"
  | QObject bool "(jsstring \<times> jsval) list"
  | QOther

fun append_each :: "(jsstring \<times> jsval) list \<Rightarrow> URLSearch \<Rightarrow> error option \<times> URLSearch" where
  "append_each [] s = (None, s)"
| "append_each ((name, values) # ps) s =
     (case append_js name values s of
        (Some e, s') \<Rightarrow> (Some e, s')
      | (None, s') \<Rightarrow> append_each ps s')"

text \<open>
  The loop over an object (lines 39 to 43): every turn calls \<open>query.hasOwnProperty(key)\<close>
  on the argument itself. The call finds the function of \<open>Object.prototype\<close>, and answers
  true for each enumerated key, only where the argument inherits from \<open>Object.prototype\<close>
  and has no own property \<open>hasOwnProperty\<close>; an own property of that name holds one of the
  values above, none of them a function, and an object without prototype has no such
  property at all: the call raises TypeError.
\<close>

definition query_hasOwnProperty_callable :: "bool \<Rightarrow> (jsstring \<times> jsval) list \<Rightarrow> bool" where
  "query_hasOwnProperty_callable inherits ps =
     (inherits \<and> map_of ps (js ''hasOwnProperty'') = None)"

fun object_loop :: "bool \<Rightarrow> (jsstring \<times> jsval) list \<Rightarrow> URLSearch \<Rightarrow> error option \<times> URLSearch" where
  "object_loop callable [] s = (None, s)"
| "object_loop callable ((key, v) # ps) s =
     (if \<not> callable then (Some TypeError, s)
      else
        (case append_js key v s of
           (Some e, s') \<Rightarrow> (Some e, s')
         | (None, s') \<Rightarrow> object_loop callable ps s'))"

text \<open>\<open>split[0]\<close> and \<open>split[1] || ''\<close> of \<open>pair.split('=')\<close>.\<close>

definition parse_pair :: "jsstring \<Rightarrow> jsstring \<times> jsval" where
  "parse_pair pair =
     (case str_split 0x3D pair of
        [] \<Rightarrow> ([], Str [])
      | [name] \<Rightarrow> (name, Str [])
      | name # v # _ \<Rightarrow> (name, Str v))"

definition parse_query :: "jsstring \<Rightarrow> (jsstring \<times> jsval) list" where
  "parse_query q =
     (let q' = (case q of [] \<Rightarrow> [] | c # r \<Rightarrow> if c = 0x3F then r else q)
      in map parse_pair (str_split 0x26 q'))"

text \<open>An error raised inside the constructor leaves no instance.\<close>

definition constructor :: "query \<Rightarrow> error + URLSearch" where
  "constructor query =
     (case (case query of
              QString q \<Rightarrow> append_each (parse_query q) empty_object
            | QArray ps \<Rightarrow> append_each ps empty_object
            | QObject inherits ps \<Rightarrow>
                object_loop (query_hasOwnProperty_callable inherits ps) ps empty_object
            | _ \<Rightarrow> (None, empty_object)) of
        (Some e, _) \<Rightarrow> Inl e
      | (None, s) \<Rightarrow> Inr s)"

subsection \<open>delete, get, getAll, has, set (lines 76 to 122)\<close>

definition delete :: "jsstring \<Rightarrow> URLSearch \<Rightarrow> URLSearch" where
  "delete name s = s\<lparr>own := filter (\<lambda>p. fst p \<noteq> name) (own s)\<rparr>"

definition has :: "jsstring \<Rightarrow> URLSearch \<Rightarrow> bool" where
  "has name s = (lookup name s \<noteq> Missing)"

text \<open>\<open>name in this.secret ? this.secret[name][0] : null\<close>.\<close>

definition get :: "jsstring \<Rightarrow> URLSearch \<Rightarrow> jsval" where
  "get name s =
     (case lookup name s of
        Missing \<Rightarrow> Null
      | OwnArr vs \<Rightarrow> (case vs of [] \<Rightarrow> Undefined | v # _ \<Rightarrow> Str v)
      | ProtoArr a \<Rightarrow> (case a of [] \<Rightarrow> Undefined | v # _ \<Rightarrow> Str v)
      | Elem str \<Rightarrow> (case str of [] \<Rightarrow> Undefined | c # _ \<Rightarrow> Str [c])
      | Len n \<Rightarrow> Undefined
      | Builtin \<Rightarrow> Undefined)"

text \<open>
  \<open>name in this.secret ? this.secret[name].slice(0) : []\<close>: a number and a built-in
  member have no \<open>slice\<close>; a string has one, which returns the string.
\<close>

definition getAll :: "jsstring \<Rightarrow> URLSearch \<Rightarrow> error + jsval" where
  "getAll name s =
     (case lookup name s of
        Missing \<Rightarrow> Inr (Arr [])
      | OwnArr vs \<Rightarrow> Inr (Arr vs)
      | ProtoArr a \<Rightarrow> Inr (Arr a)
      | Elem str \<Rightarrow> Inr (Str str)
      | Len n \<Rightarrow> Inl TypeError
      | Builtin \<Rightarrow> Inl TypeError)"

definition set_js :: "jsstring \<Rightarrow> jsval \<Rightarrow> URLSearch \<Rightarrow> URLSearch" where
  "set_js name value s = assign name [to_string value] s"

subsection \<open>forEach, keys, values, entries (lines 130 to 184)\<close>

text \<open>
  \<open>for (const name in secret) if (secret.hasOwnProperty(name)) ...\<close> visits the own
  keys in the order of \<open>own_keys\<close>.  (The elements of an array installed as prototype
  are enumerated after them and fail the test.)  The test calls whatever
  \<open>secret.hasOwnProperty\<close> is: an own property of that name is an array, and calling it
  raises TypeError.
\<close>

definition hasOwnProperty_callable :: "object \<Rightarrow> bool" where
  "hasOwnProperty_callable s = (map_of (own s) (js ''hasOwnProperty'') = None)"

fun keys_loop :: "object \<Rightarrow> jsstring list \<Rightarrow> jsstring list \<Rightarrow> error + jsstring list" where
  "keys_loop s [] names = Inr names"
| "keys_loop s (name # rest) names =
     (if \<not> hasOwnProperty_callable s then Inl TypeError
      else keys_loop s rest (names @ [name]))"

definition keys :: "URLSearch \<Rightarrow> error + jsstring list" where
  "keys s = keys_loop s (own_keys s) []"

text \<open>
  A callback is a function of the value, the name and what it has accumulated so far
  (the array it pushes to); it may raise.  \<open>None\<close> is an absent callback.
\<close>

type_synonym 'a callback = "jsstring \<Rightarrow> jsstring \<Rightarrow> 'a \<Rightarrow> error + 'a"

fun each_value :: "'a callback option \<Rightarrow> jsstring \<Rightarrow> jsstring list \<Rightarrow> 'a \<Rightarrow> error + 'a" where
  "each_value callback name [] acc = Inr acc"
| "each_value callback name (v # vs) acc =
     (case callback of
        None \<Rightarrow> each_value callback name vs acc
      | Some f \<Rightarrow>
          (case f v name acc of
             Inl e \<Rightarrow> Inl e
           | Inr acc' \<Rightarrow> each_value callback name vs acc'))"

fun each_name :: "'a callback option \<Rightarrow> object \<Rightarrow> jsstring list \<Rightarrow> 'a \<Rightarrow> error + 'a" where
  "each_name callback s [] acc = Inr acc"
| "each_name callback s (name # rest) acc =
     (if \<not> hasOwnProperty_callable s then Inl TypeError
      else
        (case map_of (own s) name of
           None \<Rightarrow> Inl TypeError
         | Some vs \<Rightarrow>
             (case each_value callback name vs acc of
                Inl e \<Rightarrow> Inl e
              | Inr acc' \<Rightarrow> each_name callback s rest acc')))"

definition forEach :: "'a callback option \<Rightarrow> URLSearch \<Rightarrow> 'a \<Rightarrow> error + 'a" where
  "forEach callback s acc = each_name callback s (own_keys s) acc"

definition "values" :: "URLSearch \<Rightarrow> error + jsstring list" where
  "values s = forEach (Some (\<lambda>value name acc. Inr (acc @ [value]))) s []"

definition entries :: "URLSearch \<Rightarrow> error + (jsstring \<times> jsstring) list" where
  "entries s = forEach (Some (\<lambda>value name acc. Inr (acc @ [(name, value)]))) s []"

subsection \<open>toString and encodeURI (lines 191 to 198 and 224 to 237)\<close>

text \<open>
  \<open>str.replace(/[!'\(\)~]|%20|%00/g, match => replacePairs[match])\<close>: one scan from
  left to right; at each position the character class is tried first, then \<open>%20\<close>, then
  \<open>%00\<close>; the scan goes on after the match.
\<close>

definition replacePairs :: "jsstring \<Rightarrow> jsstring" where
  "replacePairs m =
     (if m = js ''!'' then js ''%21''
      else if m = js [CHR 0x27] then js ''%27''
      else if m = js ''('' then js ''%28''
      else if m = js '')'' then js ''%29''
      else if m = js ''~'' then js ''%7E''
      else if m = js ''%20'' then js ''+''
      else if m = js ''%00'' then [0]
      else m)"

function replace_matches :: "jsstring \<Rightarrow> jsstring" where
  "replace_matches [] = []"
| "replace_matches (c # s) =
     (if c \<in> List.set (js (''!'' @ [CHR 0x27] @ ''()~'')) then replacePairs [c] @ replace_matches s
      else if c # take 2 s = js ''%20'' then replacePairs (c # take 2 s) @ replace_matches (drop 2 s)
      else if c # take 2 s = js ''%00'' then replacePairs (c # take 2 s) @ replace_matches (drop 2 s)
      else c # replace_matches s)"
  by pat_completeness auto
termination
  by (relation "measure length") auto

definition encodeURI :: "jsstring \<Rightarrow> error + jsstring" where
  "encodeURI str =
     (case encodeURIComponent str of
        Inl e \<Rightarrow> Inl e
      | Inr r \<Rightarrow> Inr (replace_matches r))"

definition toString :: "URLSearch \<Rightarrow> error + jsstring" where
  "toString s =
     (case forEach
             (Some (\<lambda>value name query.
                (case encodeURI name of
                   Inl e \<Rightarrow> Inl e
                 | Inr n \<Rightarrow>
                     (case encodeURI value of
                        Inl e \<Rightarrow> Inl e
                      | Inr v \<Rightarrow> Inr (query @ [n @ js ''='' @ v])))))
             s [] of
        Inl e \<Rightarrow> Inl e
      | Inr query \<Rightarrow> Inr (str_join (js ''&'') query))"

subsection \<open>sort (lines 205 to 215)\<close>

text \<open>
  \<open>temp[key] = this.secret[key].sort()\<close> for the sorted keys, on a fresh object
  \<open>temp\<close>, which then replaces \<open>secret\<close>.
\<close>

fun sort_loop :: "object \<Rightarrow> jsstring list \<Rightarrow> object \<Rightarrow> error + object" where
  "sort_loop s [] temp = Inr temp"
| "sort_loop s (key # ks) temp =
     (case map_of (own s) key of
        None \<Rightarrow> Inl TypeError
      | Some vs \<Rightarrow> sort_loop s ks (assign key (sort vs) temp))"

definition sort_js :: "URLSearch \<Rightarrow> error + URLSearch" where
  "sort_js s =
     (case keys s of
        Inl e \<Rightarrow> Inl e
      | Inr ks \<Rightarrow> sort_loop s (sort ks) empty_object)"

section \<open>The serialisation as the specification words it\<close>

text \<open>
  The specification describes the encode transform as successive replacements on the
  result of the standard percent-encoding: the characters \<open>! ' ( ) ~\<close> by their
  escapes, then every \<open>%20\<close> by \<open>+\<close>, then every \<open>%00\<close> by the NUL character.
  \<open>replace_all\<close> replaces the occurrences of a pattern from left to right.
\<close>

function replace_all :: "jsstring \<Rightarrow> jsstring \<Rightarrow> jsstring \<Rightarrow> jsstring" where
  "replace_all pat rep [] = []"
| "replace_all pat rep (c # s) =
     (if pat \<noteq> [] \<and> take (length pat) (c # s) = pat
      then rep @ replace_all pat rep (drop (length pat) (c # s))
      else c # replace_all pat rep s)"
  by pat_completeness auto
termination
  by (relation "measure (\<lambda>(pat, rep, s). length s)") auto

definition reencode_spec :: "jsstring \<Rightarrow> jsstring" where
  "reencode_spec r =
     replace_all (js ''~'') (js ''%7E'')
       (replace_all (js '')'') (js ''%29'')
         (replace_all (js ''('') (js ''%28'')
           (replace_all (js [CHR 0x27]) (js ''%27'')
             (replace_all (js ''!'') (js ''%21'') r))))"

definition encode_transform_spec :: "jsstring \<Rightarrow> error + jsstring" where
  "encode_transform_spec str =
     (case encodeURIComponent str of
        Inl e \<Rightarrow> Inl e
      | Inr r \<Rightarrow>
          Inr (replace_all (js ''%00'') [0]
                 (replace_all (js ''%20'') (js ''+'') (reencode_spec r))))"

text \<open>
  \<open>toString\<close> as the specification words it: the segments \<open>name=value\<close> of the
  entries, in the order of \<open>forEach\<close>, joined by \<open>&\<close>.
\<close>

fun segments_spec :: "(jsstring \<times> jsstring) list \<Rightarrow> error + jsstring list" where
  "segments_spec [] = Inr []"
| "segments_spec ((name, value) # es) =
     (case encode_transform_spec name of
        Inl e \<Rightarrow> Inl e
      | Inr n \<Rightarrow>
          (case encode_transform_spec value of
             Inl e \<Rightarrow> Inl e
           | Inr v \<Rightarrow>
               (case segments_spec es of
                  Inl e \<Rightarrow> Inl e
                | Inr segs \<Rightarrow> Inr ((n @ js ''='' @ v) # segs))))"

definition toString_spec :: "URLSearch \<Rightarrow> error + jsstring" where
  "toString_spec s =
     (case entries s of
        Inl e \<Rightarrow> Inl e
      | Inr es \<Rightarrow>
          (case segments_spec es of
             Inl e \<Rightarrow> Inl e
           | Inr segs \<Rightarrow> Inr (str_join (js ''&'') segs)))"

section \<open>Auxiliary notions\<close>

text \<open>The values of an own key, and the name-major list of entries over a list of keys.\<close>

definition own_values :: "object \<Rightarrow> jsstring \<Rightarrow> jsstring list" where
  "own_values s k = (case map_of (own s) k of None \<Rightarrow> [] | Some vs \<Rightarrow> vs)"

definition pairs :: "object \<Rightarrow> jsstring list \<Rightarrow> (jsstring \<times> jsstring) list" where
  "pairs s ks = concat (map (\<lambda>k. map (Pair k) (own_values s k)) ks)"

text \<open>The three passes of the encode transform, with the characters as numbers.\<close>

definition charmap :: "16 word \<Rightarrow> jsstring" where
  "charmap x =
     (if x = 33 then [37, 50, 49] else if x = 39 then [37, 50, 55]
      else if x = 40 then [37, 50, 56] else if x = 41 then [37, 50, 57]
      else if x = 126 then [37, 55, 69] else [x])"

definition pass_space :: "jsstring \<Rightarrow> jsstring" where
  "pass_space t = replace_all [37, 50, 48] [43] t"

definition pass_nul :: "jsstring \<Rightarrow> jsstring" where
  "pass_nul t = replace_all [37, 48, 48] [0] t"

text \<open>What the loop of \<open>sort\<close> keeps true of the object it builds.\<close>

definition sort_inv :: "object \<Rightarrow> bool" where
  "sort_inv t \<longleftrightarrow>
     sorted (map fst (own t)) \<and> (\<forall>p\<in>set (own t). sorted (snd p))
     \<and> js ''__proto__'' \<notin> fst ` set (own t)"

section \<open>Sequences of calls\<close>

text \<open>
  A collection is built by the constructor and then by calls of \<open>append\<close>, \<open>set\<close> and
  \<open>delete\<close>; a call that raises ends the sequence.
\<close>

datatype call = Append jsstring jsval | Set jsstring jsval | Delete jsstring

fun perform :: "call \<Rightarrow> URLSearch \<Rightarrow> error option \<times> URLSearch" where
  "perform (Append name v) s = append_js name v s"
| "perform (Set name v) s = (None, set_js name v s)"
| "perform (Delete name) s = (None, delete name s)"

fun perform_all :: "call list \<Rightarrow> URLSearch \<Rightarrow> error option \<times> URLSearch" where
  "perform_all [] s = (None, s)"
| "perform_all (c # cs) s =
     (case perform c s of
        (Some e, s') \<Rightarrow> (Some e, s')
      | (None, s') \<Rightarrow> perform_all cs s')"

definition build :: "query \<Rightarrow> call list \<Rightarrow> error + URLSearch" where
  "build query cs =
     (case constructor query of
        Inl e \<Rightarrow> Inl e
      | Inr s \<Rightarrow>
          (case perform_all cs s of
             (Some e, s') \<Rightarrow> Inl e
           | (None, s') \<Rightarrow> Inr s'))"

text \<open>
  The calls of \<open>append\<close> that the constructor makes, where its test
  \<open>query.hasOwnProperty(key)\<close> does not raise.
\<close>

definition construction_calls :: "query \<Rightarrow> call list" where
  "construction_calls query =
     (case query of
        QString q \<Rightarrow> map (\<lambda>(name, v). Append name v) (parse_query q)
      | QArray ps \<Rightarrow> map (\<lambda>(name, v). Append name v) ps
      | QObject inherits ps \<Rightarrow> map (\<lambda>(name, v). Append name v) ps
      | _ \<Rightarrow> [])"

text \<open>
  The names in first-seen order, as the specification words it: \<open>append\<close> with a
  falsy name or value or with an empty sequence adds nothing, \<open>append\<close> and \<open>set\<close> put a
  new name last, \<open>delete\<close> removes the name.
\<close>

fun first_seen_step :: "jsstring list \<Rightarrow> call \<Rightarrow> jsstring list" where
  "first_seen_step ns (Append name v) =
     (if name = [] \<or> v = Arr [] \<or> \<not> truthy v \<or> name \<in> set ns then ns
      else ns @ [name])"
| "first_seen_step ns (Set name v) = (if name \<in> set ns then ns else ns @ [name])"
| "first_seen_step ns (Delete name) = removeAll name ns"

definition first_seen_spec :: "query \<Rightarrow> call list \<Rightarrow> jsstring list" where
  "first_seen_spec query cs = foldl first_seen_step [] (construction_calls query @ cs)"

text \<open>
  Calls and objects free of the names that an object treats specially: array indices,
  which are enumerated first, and the names that \<open>Object.prototype\<close> defines.
\<close>

fun call_name :: "call \<Rightarrow> jsstring" where
  "call_name (Append name v) = name"
| "call_name (Set name v) = name"
| "call_name (Delete name) = name"

definition plain_call :: "call \<Rightarrow> bool" where
  "plain_call c \<longleftrightarrow>
     \<not> is_index (call_name c) \<and> call_name c \<notin> set object_prototype_names
     \<and> (case c of Append name v \<Rightarrow> v \<noteq> Arr [] | _ \<Rightarrow> True)"

definition plain_object :: "object \<Rightarrow> bool" where
  "plain_object s \<longleftrightarrow>
     proto s = None \<and> distinct (map fst (own s))
     \<and> (\<forall>k\<in>fst ` set (own s). \<not> is_index k \<and> k \<notin> set object_prototype_names)"



fun value_strings :: "jsval \<Rightarrow> jsstring list" where
  "value_strings (Str v) = [v]"
| "value_strings (Arr vs) = vs"
| "value_strings Undefined = []"
| "value_strings Null = []"
| "value_strings (Other t str) = []"

fun iterable :: "jsval \<Rightarrow> bool" where
  "iterable (Str v) = True"
| "iterable (Arr vs) = True"
| "iterable Undefined = False"
| "iterable Null = False"
| "iterable (Other t str) = False"




text \<open>
  For the round trip through \<open>toString\<close>: \<open>add_value\<close> is what \<open>append\<close> does with
  one decoded value, \<open>rebuild\<close> adds a list of entries, and \<open>reparsed\<close> relates an entry
  to the pair that the constructor reads back from its segment.  A tidy object is one
  that the constructor builds from a string: it has kept its prototype, and every name is
  non-empty, not a name of \<open>Object.prototype\<close>, and has at least one value.
\<close>

definition add_value :: "jsstring \<Rightarrow> jsstring \<Rightarrow> object \<Rightarrow> object" where
  "add_value name d s = s\<lparr>own := put name (own_values s name @ [d]) (own s)\<rparr>"

definition rebuild :: "(jsstring \<times> jsstring) list \<Rightarrow> object \<Rightarrow> object" where
  "rebuild es s = foldl (\<lambda>s (name, d). add_value name d s) s es"

definition tidy :: "object \<Rightarrow> bool" where
  "tidy s \<longleftrightarrow>
     proto s = None \<and> distinct (map fst (own s))
     \<and> (\<forall>p\<in>set (own s). fst p \<noteq> [] \<and> fst p \<notin> set object_prototype_names \<and> snd p \<noteq> [])"

definition reparsed :: "jsstring \<times> jsstring \<Rightarrow> jsstring \<times> jsval \<Rightarrow> bool" where
  "reparsed e p \<longleftrightarrow>
     fst p = fst e \<and> fst e \<noteq> [] \<and> fst e \<notin> set object_prototype_names
     \<and> (case snd p of
           Str ev \<Rightarrow> ev \<noteq> [] \<and> decodeURIComponent (replace_char 0x2B [] ev) = Inr (snd e)
         | _ \<Rightarrow> False)"

section \<open>Properties\<close>

text \<open>The definitions that the simplifier unfolds to run the model on a concrete input.\<close>

lemmas eval_defs = js_def replace_char_def hex_val_def continuation_octet_def utf16_units_def
  two_octets_def three_octets_def four_octets_def escape_sequence_def uri_unescaped_def
  hex_digit_def escape_octet_def utf8_octets_def escape_code_point_def high_surrogate_def
  low_surrogate_def empty_object_def object_prototype_names_def array_prototype_names_def
  is_digit_def decimal_def array_index_def is_index_def index_of_def own_keys_def
  inherited_def lookup_def assign_def push_value_def append_js_def parse_pair_def
  parse_query_def query_hasOwnProperty_callable_def constructor_def delete_def has_def get_def getAll_def set_js_def
  hasOwnProperty_callable_def keys_def forEach_def values_def entries_def replacePairs_def
  encodeURI_def toString_def sort_js_def

subsection \<open>Assignment and lookup\<close>

lemma map_of_put_same: "map_of (put k vs ps) k = Some vs"
  by (induction ps) auto

lemma map_of_put_other: "k' \<noteq> k \<Longrightarrow> map_of (put k vs ps) k' = map_of ps k'"
  by (induction ps) auto

lemma lookup_assign_same:
  "lookup name (assign name vs s) = (if name = js ''__proto__'' then ProtoArr vs else OwnArr vs)"
  by (simp add: lookup_def assign_def map_of_put_same)

subsection \<open>A pair without a value\<close>

text \<open>
  Claim C1 says that a pair whose value is empty or missing is stored with the
  empty string as its value, so that \<open>get\<close> gives \<open>''\<close> and \<open>has\<close> gives true.  The
  constructor does pass \<open>split[1] || ''\<close> to \<open>append\<close>, but \<open>append\<close> returns at once
  when its value is falsy, and the empty string is: the pair is dropped.  For the query
  \<open>?name=pxy&version=\<close> only \<open>name\<close> is stored, \<open>get('version')\<close> is \<open>null\<close> and
  \<open>has('version')\<close> is false.
\<close>

theorem C1_empty_value_pair_is_dropped:
  "constructor (QString (js ''?name=pxy&version=''))
     = Inr \<lparr>own = [(js ''name'', [js ''pxy''])], proto = None\<rparr>
   \<and> get (js ''version'') \<lparr>own = [(js ''name'', [js ''pxy''])], proto = None\<rparr> = Null
   \<and> has (js ''version'') \<lparr>own = [(js ''name'', [js ''pxy''])], proto = None\<rparr> = False"
  by (simp add: eval_defs)

subsection \<open>The decode rule of append\<close>

text \<open>
  Claim C2 says that \<open>append\<close> replaces every \<open>+\<close> of a value by a space before
  percent-decoding it.  The code replaces it by the empty string
  (\<open>replace(/\+/g, '')\<close>): appending \<open>a+b\<close> stores \<open>ab\<close>, not \<open>a b\<close>.
\<close>

theorem C2_plus_is_deleted:
  "append_js (js ''q'') (Str (js ''a+b'')) empty_object
     = (None, \<lparr>own = [(js ''q'', [js ''ab''])], proto = None\<rparr>)"
  by (simp add: eval_defs)

subsection \<open>Appending an empty sequence\<close>

text \<open>
  Claim C3 says that no name ever maps to an empty sequence and that
  \<open>append(name, [])\<close> leaves the collection observably unchanged.  An empty array is
  truthy, so \<open>append\<close> goes on, creates \<open>secret[name] = []\<close> for a new name and pushes
  nothing: on the empty collection \<open>append('a', [])\<close> leaves the entry \<open>a\<close> with no
  value, after which \<open>has('a')\<close> is true, \<open>get('a')\<close> is \<open>undefined\<close> and \<open>keys()\<close> is
  \<open>['a']\<close>.
\<close>

theorem C3_append_empty_array_creates_entry:
  "append_js (js ''a'') (Arr []) empty_object
     = (None, \<lparr>own = [(js ''a'', [])], proto = None\<rparr>)
   \<and> has (js ''a'') \<lparr>own = [(js ''a'', [])], proto = None\<rparr>
   \<and> get (js ''a'') \<lparr>own = [(js ''a'', [])], proto = None\<rparr> = Undefined
   \<and> keys \<lparr>own = [(js ''a'', [])], proto = None\<rparr> = Inr [js ''a'']
   \<and> \<not> has (js ''a'') empty_object
   \<and> keys empty_object = Inr []"
  by (simp add: eval_defs)

subsection \<open>What set stores\<close>

text \<open>
  Claim C9: after \<open>set(n, v)\<close> on any collection, \<open>getAll(n)\<close> is the one-element
  sequence holding the string form of \<open>v\<close>; whatever \<open>n\<close> held before is gone, and the
  value is stored as given, not decoded.  (For the name \<open>__proto__\<close> the array becomes
  the prototype of \<open>secret\<close>, and \<open>getAll\<close> reads it back from there.)  The second and
  third conjunct show the difference to \<open>append\<close> on the value \<open>%41\<close>.
\<close>

theorem C9_set_replaces_all_values:
  "getAll n (set_js n v s) = Inr (Arr [to_string v])
   \<and> set_js (js ''n'') (Str (js ''%41'')) empty_object
       = \<lparr>own = [(js ''n'', [js ''%41''])], proto = None\<rparr>
   \<and> append_js (js ''n'') (Str (js ''%41'')) empty_object
       = (None, \<lparr>own = [(js ''n'', [js ''A''])], proto = None\<rparr>)"
proof -
  have "getAll n (set_js n v s) = Inr (Arr [to_string v])"
    by (simp add: getAll_def set_js_def lookup_assign_same)
  moreover have "set_js (js ''n'') (Str (js ''%41'')) empty_object
       = \<lparr>own = [(js ''n'', [js ''%41''])], proto = None\<rparr>"
    by (simp add: eval_defs)
  moreover have "append_js (js ''n'') (Str (js ''%41'')) empty_object
       = (None, \<lparr>own = [(js ''n'', [js ''A''])], proto = None\<rparr>)"
    by (simp add: eval_defs)
  ultimately show ?thesis by simp
qed

text \<open>
  Claim C10: \<open>set\<close> has no guard on the name.  On every collection and for every
  value, \<open>set('', v)\<close> leaves an entry under the empty name, so that \<open>has('')\<close> is true
  and \<open>get('')\<close> is the string form of \<open>v\<close>; \<open>append('', v)\<close> changes nothing.
\<close>

theorem C10_set_has_no_name_guard:
  "has [] (set_js [] v s) \<and> get [] (set_js [] v s) = Str (to_string v)
   \<and> append_js [] v s = (None, s)"
  by (simp add: has_def get_def set_js_def lookup_assign_same append_js_def js_def)

subsection \<open>The encode transform\<close>

lemma replace_all_char: "replace_all [c] rep s = replace_char c rep s"
  by (induction s) (simp_all add: replace_char_def)

lemma replace_char_Nil [simp]: "replace_char c rep [] = []"
  by (simp add: replace_char_def)

lemma replace_char_Cons [simp]:
  "replace_char c rep (x # s) = (if x = c then rep else [x]) @ replace_char c rep s"
  by (simp add: replace_char_def)

lemma replace_char_append [simp]:
  "replace_char c rep (a @ b) = replace_char c rep a @ replace_char c rep b"
  by (simp add: replace_char_def)

lemma reencode_spec_charmap: "reencode_spec r = concat (map charmap r)"
proof -
  have "replace_char 126 [37, 55, 69] (replace_char 41 [37, 50, 57]
     (replace_char 40 [37, 50, 56] (replace_char 39 [37, 50, 55] (replace_char 33 [37, 50, 49] r))))
     = concat (map charmap r)"
    by (induction r) (simp_all add: charmap_def)
  then show ?thesis
    by (simp add: reencode_spec_def js_def replace_all_char)
qed

lemma pass_space_Nil [simp]: "pass_space [] = []" by (simp add: pass_space_def)
lemma pass_space_Cons: "pass_space (c # s) = (if c = 37 \<and> take 2 s = [50, 48] then 43 # pass_space (drop 2 s) else c # pass_space s)"
  by (auto simp: pass_space_def numeral_2_eq_2)
lemma pass_nul_Nil [simp]: "pass_nul [] = []" by (simp add: pass_nul_def)
lemma pass_nul_Cons: "pass_nul (c # s) = (if c = 37 \<and> take 2 s = [48, 48] then 0 # pass_nul (drop 2 s) else c # pass_nul s)"
  by (auto simp: pass_nul_def numeral_2_eq_2)

lemma take2_eq: "take 2 t = [x, y] \<longleftrightarrow> (\<exists>r. t = x # y # r)"
  by (cases t; cases "tl t") (auto simp: numeral_2_eq_2)

lemma pass_space_starts:
  assumes "x \<noteq> 37" "x \<noteq> 43" "y \<noteq> 37" "y \<noteq> 43"
  shows "take 2 (pass_space t) = [x, y] \<longleftrightarrow> take 2 t = [x, y]"
proof (cases t)
  case Nil
  then show ?thesis by simp
next
  case (Cons a t')
  show ?thesis
  proof (cases t')
    case Nil
    with Cons show ?thesis by (simp add: pass_space_Cons)
  next
    case (Cons b t'')
    with \<open>t = a # t'\<close> assms show ?thesis
      by (cases t'') (auto simp: pass_space_Cons take2_eq)
  qed
qed

lemma charmap_cases:
  "charmap x = [x] \<or> (x \<in> {33, 39, 40, 41, 126} \<and> (\<exists>a b. charmap x = [37, a, b] \<and> b \<noteq> 48))"
  by (auto simp: charmap_def)

lemma M_starts:
  assumes "x \<noteq> 37" "charmap x = [x]" "y \<noteq> 37" "charmap y = [y]"
  shows "take 2 (concat (map charmap t)) = [x, y] \<longleftrightarrow> take 2 t = [x, y]"
proof (cases t)
  case Nil
  then show ?thesis by simp
next
  case 1: (Cons a t')
  show ?thesis
  proof (cases t')
    case Nil
    with 1 assms charmap_cases [of a] show ?thesis by (auto simp: numeral_2_eq_2)
  next
    case (Cons b t'')
    with 1 assms charmap_cases [of a] charmap_cases [of b] show ?thesis
      by (auto simp: numeral_2_eq_2)
  qed
qed

lemma replace_matches_Cons:
  "replace_matches (c # s) =
     (if c \<in> {33, 39, 40, 41, 126} then charmap c @ replace_matches s
      else if c = 37 \<and> take 2 s = [50, 48] then 43 # replace_matches (drop 2 s)
      else if c = 37 \<and> take 2 s = [48, 48] then 0 # replace_matches (drop 2 s)
      else c # replace_matches s)"
  by (auto simp: js_def replacePairs_def charmap_def)

lemma charmap_48 [simp]: "charmap 48 = [48]" and charmap_50 [simp]: "charmap 50 = [50]"
  and charmap_37 [simp]: "charmap 37 = [37]"
  by (simp_all add: charmap_def)

lemma passes_special:
  assumes "c \<in> {33, 39, 40, 41, 126}"
  shows "pass_nul (pass_space (charmap c @ t)) = charmap c @ pass_nul (pass_space t)"
  using assms by (auto simp: charmap_def pass_space_Cons pass_nul_Cons)

lemma passes_scan: "pass_nul (pass_space (concat (map charmap s))) = replace_matches s"
proof (induction s rule: length_induct)
  case (1 s)
  show ?case
  proof (cases s)
    case Nil
    then show ?thesis by simp
  next
    case (Cons c r)
    have IH: "pass_nul (pass_space (concat (map charmap r))) = replace_matches r"
      using 1 Cons by simp
    consider (special) "c \<in> {33, 39, 40, 41, 126}"
      | (space) "c = 37" "take 2 r = [50, 48]"
      | (nul) "c = 37" "take 2 r = [48, 48]"
      | (other) "c \<notin> {33, 39, 40, 41, 126}" "\<not> (c = 37 \<and> take 2 r = [50, 48])"
          "\<not> (c = 37 \<and> take 2 r = [48, 48])"
      by blast
    then show ?thesis
    proof cases
      case special
      then show ?thesis
        using IH Cons by (simp add: passes_special replace_matches_Cons del: insert_iff replace_matches.simps(2))
    next
      case space
      then obtain r' where r: "r = 50 # 48 # r'" by (auto simp: take2_eq)
      have "pass_nul (pass_space (concat (map charmap r'))) = replace_matches r'"
        using 1 Cons r by simp
      then show ?thesis
        using Cons r space by (simp add: replace_matches_Cons pass_space_Cons pass_nul_Cons del: replace_matches.simps(2))
    next
      case nul
      then obtain r' where r: "r = 48 # 48 # r'" by (auto simp: take2_eq)
      have "pass_nul (pass_space (concat (map charmap r'))) = replace_matches r'"
        using 1 Cons r by simp
      then show ?thesis
        using Cons r nul by (simp add: replace_matches_Cons pass_space_Cons pass_nul_Cons del: replace_matches.simps(2))
    next
      case other
      then have cm: "charmap c = [c]" by (auto simp: charmap_def)
      have a: "pass_space (c # concat (map charmap r)) = c # pass_space (concat (map charmap r))"
        using other M_starts [of 50 48 r] by (auto simp: pass_space_Cons)
      have b: "pass_nul (c # pass_space (concat (map charmap r))) = c # pass_nul (pass_space (concat (map charmap r)))"
        using other pass_space_starts [of 48 48 "concat (map charmap r)"] M_starts [of 48 48 r]
        by (auto simp: pass_nul_Cons)
      show ?thesis
        using Cons other IH cm a b by (simp add: replace_matches_Cons del: insert_iff replace_matches.simps(2))
    qed
  qed
qed

lemma encodeURI_spec: "encodeURI str = encode_transform_spec str"
  by (simp add: encodeURI_def encode_transform_spec_def reencode_spec_charmap js_def
      passes_scan [unfolded pass_space_def pass_nul_def] split: sum.splits)

subsection \<open>Iteration\<close>

lemma set_own_keys: "set (own_keys s) = fst ` set (own s)"
  by (auto simp: own_keys_def Let_def)

lemma not_callable_own_keys: "\<not> hasOwnProperty_callable s \<Longrightarrow> own_keys s \<noteq> []"
proof -
  assume "\<not> hasOwnProperty_callable s"
  then have "js ''hasOwnProperty'' \<in> fst ` set (own s)"
    by (auto simp: hasOwnProperty_callable_def map_of_eq_None_iff)
  then show ?thesis using set_own_keys [of s] by auto
qed

lemma each_name_not_callable:
  "\<not> hasOwnProperty_callable s \<Longrightarrow> ks \<noteq> [] \<Longrightarrow> each_name cb s ks acc = Inl TypeError"
  by (cases ks) simp_all

lemma each_value_entries:
  "each_value (Some (\<lambda>value name acc. Inr (acc @ [(name, value)]))) name vs acc
     = Inr (acc @ map (Pair name) vs)"
  by (induction vs arbitrary: acc) simp_all

lemma each_name_entries:
  assumes "hasOwnProperty_callable s" "set ks \<subseteq> fst ` set (own s)"
  shows "each_name (Some (\<lambda>value name acc. Inr (acc @ [(name, value)]))) s ks acc
     = Inr (acc @ pairs s ks)"
  using assms
proof (induction ks arbitrary: acc)
  case Nil
  then show ?case by (simp add: pairs_def)
next
  case (Cons k ks)
  then obtain vs where vs: "map_of (own s) k = Some vs"
    by (cases "map_of (own s) k") (auto simp: map_of_eq_None_iff)
  with Cons show ?case
    by (simp add: each_value_entries pairs_def own_values_def)
qed

lemma entries_eq:
  "entries s = (if hasOwnProperty_callable s then Inr (pairs s (own_keys s)) else Inl TypeError)"
  using each_name_entries [of s "own_keys s" "[]"] each_name_not_callable [of s "own_keys s"]
    not_callable_own_keys [of s] set_own_keys [of s]
  by (auto simp: entries_def forEach_def)

lemma each_value_values:
  "each_value (Some (\<lambda>value name acc. Inr (acc @ [value]))) name vs acc = Inr (acc @ vs)"
  by (induction vs arbitrary: acc) simp_all

lemma each_name_values:
  assumes "hasOwnProperty_callable s" "set ks \<subseteq> fst ` set (own s)"
  shows "each_name (Some (\<lambda>value name acc. Inr (acc @ [value]))) s ks acc
     = Inr (acc @ map snd (pairs s ks))"
  using assms
proof (induction ks arbitrary: acc)
  case Nil
  then show ?case by (simp add: pairs_def)
next
  case (Cons k ks)
  then obtain vs where vs: "map_of (own s) k = Some vs"
    by (cases "map_of (own s) k") (auto simp: map_of_eq_None_iff)
  with Cons show ?case
    by (simp add: each_value_values pairs_def own_values_def o_def)
qed

lemma values_eq:
  "values s = (if hasOwnProperty_callable s then Inr (map snd (pairs s (own_keys s)))
               else Inl TypeError)"
  using each_name_values [of s "own_keys s" "[]"] each_name_not_callable [of s "own_keys s"]
    not_callable_own_keys [of s] set_own_keys [of s]
  by (auto simp: values_def forEach_def)

lemma keys_loop_eq:
  "keys_loop s ks names = (if ks = [] \<or> hasOwnProperty_callable s then Inr (names @ ks)
                           else Inl TypeError)"
  by (induction ks arbitrary: names) auto

lemma keys_eq:
  "keys s = (if hasOwnProperty_callable s then Inr (own_keys s) else Inl TypeError)"
  using not_callable_own_keys [of s] by (auto simp: keys_def keys_loop_eq)


subsection \<open>toString joins the encoded segments\<close>

lemma segments_spec_append:
  "segments_spec (xs @ ys) =
     (case segments_spec xs of
        Inl e \<Rightarrow> Inl e
      | Inr a \<Rightarrow> (case segments_spec ys of Inl e \<Rightarrow> Inl e | Inr b \<Rightarrow> Inr (a @ b)))"
  by (induction xs rule: segments_spec.induct) (auto split: sum.splits)

lemma each_value_toString:
  "each_value
     (Some (\<lambda>value name query.
        (case encodeURI name of
           Inl e \<Rightarrow> Inl e
         | Inr n \<Rightarrow>
             (case encodeURI value of
                Inl e \<Rightarrow> Inl e
              | Inr v \<Rightarrow> Inr (query @ [n @ js ''='' @ v])))))
     name vs q
   = (case segments_spec (map (Pair name) vs) of
        Inl e \<Rightarrow> Inl e
      | Inr segs \<Rightarrow> Inr (q @ segs))"
  by (induction vs arbitrary: q) (auto simp: encodeURI_spec split: sum.splits)

lemma each_name_toString:
  assumes "hasOwnProperty_callable s" "set ks \<subseteq> fst ` set (own s)"
  shows "each_name
     (Some (\<lambda>value name query.
        (case encodeURI name of
           Inl e \<Rightarrow> Inl e
         | Inr n \<Rightarrow>
             (case encodeURI value of
                Inl e \<Rightarrow> Inl e
              | Inr v \<Rightarrow> Inr (query @ [n @ js ''='' @ v])))))
     s ks q
   = (case segments_spec (pairs s ks) of
        Inl e \<Rightarrow> Inl e
      | Inr segs \<Rightarrow> Inr (q @ segs))"
  using assms
proof (induction ks arbitrary: q)
  case Nil
  then show ?case by (simp add: pairs_def)
next
  case (Cons k ks)
  then obtain vs where vs: "map_of (own s) k = Some vs"
    by (cases "map_of (own s) k") (auto simp: map_of_eq_None_iff)
  have p: "pairs s (k # ks) = map (Pair k) vs @ pairs s ks"
    using vs by (simp add: pairs_def own_values_def)
  from Cons vs show ?case
    by (auto simp: each_value_toString p segments_spec_append split: sum.splits)
qed

lemma toString_eq:
  "toString s =
     (if hasOwnProperty_callable s then
        (case segments_spec (pairs s (own_keys s)) of
           Inl e \<Rightarrow> Inl e
         | Inr segs \<Rightarrow> Inr (str_join (js ''&'') segs))
      else Inl TypeError)"
proof (cases "hasOwnProperty_callable s")
  case True
  then show ?thesis
    using each_name_toString [of s "own_keys s" "[]"] set_own_keys [of s]
    by (simp add: toString_def forEach_def split: sum.splits)
next
  case False
  then show ?thesis
    by (simp add: toString_def forEach_def each_name_not_callable not_callable_own_keys)
qed

lemma toString_spec_eq: "toString s = toString_spec s"
  by (simp add: toString_eq toString_spec_def entries_eq)


text \<open>
  Claim C8: \<open>encodeURI\<close>, which makes its replacements in one scan, computes the
  encode transform of the specification; \<open>toString\<close> joins the segments
  \<open>name=value\<close> of the entries by \<open>&\<close>; the empty collection gives the empty
  string; and the collection built from \<open>name=pxy!fiy&version=1.0.0\<close> is written
  \<open>name=pxy%21fiy&version=1.0.0\<close>.
\<close>

theorem C8_toString_follows_the_encode_transform:
  "encodeURI str = encode_transform_spec str
   \<and> toString s = toString_spec s
   \<and> toString empty_object = Inr []
   \<and> constructor (QString (js ''name=pxy!fiy&version=1.0.0''))
       = Inr \<lparr>own = [(js ''name'', [js ''pxy!fiy'']), (js ''version'', [js ''1.0.0''])],
              proto = None\<rparr>
   \<and> toString \<lparr>own = [(js ''name'', [js ''pxy!fiy'']), (js ''version'', [js ''1.0.0''])],
                proto = None\<rparr>
       = Inr (js ''name=pxy%21fiy&version=1.0.0'')"
proof -
  have "toString empty_object = Inr []"
    by (simp add: eval_defs)
  moreover have "constructor (QString (js ''name=pxy!fiy&version=1.0.0''))
       = Inr \<lparr>own = [(js ''name'', [js ''pxy!fiy'']), (js ''version'', [js ''1.0.0''])],
              proto = None\<rparr>"
    by (simp add: eval_defs)
  moreover have "toString \<lparr>own = [(js ''name'', [js ''pxy!fiy'']),
                 (js ''version'', [js ''1.0.0''])], proto = None\<rparr>
       = Inr (js ''name=pxy%21fiy&version=1.0.0'')"
    by (simp add: eval_defs)
  ultimately show ?thesis
    by (simp add: encodeURI_spec toString_spec_eq)
qed

theorem C8_witness:
  "encodeURI ([0] @ js ''a b!~'') = Inr ([0] @ js ''a+b%21%7E'')
   \<and> encode_transform_spec ([0] @ js ''a b!~'') = Inr ([0] @ js ''a+b%21%7E'')"
proof -
  have "encodeURI ([0] @ js ''a b!~'') = Inr ([0] @ js ''a+b%21%7E'')"
    by (simp add: eval_defs)
  then show ?thesis
    using C8_toString_follows_the_encode_transform [of "[0] @ js ''a b!~''" empty_object]
    by simp
qed

subsection \<open>The order after sort\<close>

lemma keys_put: "fst ` set (put k vs ps) = insert k (fst ` set ps)"
  by (induction ps) auto

lemma set_put: "set (put k vs ps) \<subseteq> insert (k, vs) (set ps)"
  by (induction ps) auto

lemma map_fst_put:
  "map fst (put k vs ps) = (if k \<in> fst ` set ps then map fst ps else map fst ps @ [k])"
  by (induction ps) auto

lemma sorted_put:
  "sorted (map fst ps) \<Longrightarrow> \<forall>a\<in>fst ` set ps. a \<le> k \<Longrightarrow> sorted (map fst (put k vs ps))"
  by (induction ps) (auto simp: keys_put)

lemma sort_loop_inv:
  assumes "set ks \<subseteq> fst ` set (own s)" "sorted ks" "sort_inv t"
    "\<forall>a\<in>fst ` set (own t). \<forall>b\<in>set ks. a \<le> b"
  shows "\<exists>t'. sort_loop s ks t = Inr t' \<and> sort_inv t'
           \<and> fst ` set (own t') \<subseteq> fst ` set (own t) \<union> set ks"
  using assms
proof (induction ks arbitrary: t)
  case Nil
  then show ?case by simp
next
  case (Cons k ks)
  then obtain vs where vs: "map_of (own s) k = Some vs"
    by (cases "map_of (own s) k") (auto simp: map_of_eq_None_iff)
  let ?t = "assign k (sort vs) t"
  have inv: "sort_inv ?t"
  proof (cases "k = js ''__proto__''")
    case True
    with Cons.prems(3) show ?thesis by (simp add: assign_def sort_inv_def)
  next
    case False
    have "sorted (map fst (put k (sort vs) (own t)))"
      using Cons.prems(3,4) by (intro sorted_put) (auto simp: sort_inv_def)
    moreover have "\<forall>p\<in>set (put k (sort vs) (own t)). sorted (snd p)"
      using Cons.prems(3) set_put [of k "sort vs" "own t"] by (auto simp: sort_inv_def)
    ultimately show ?thesis
      using False Cons.prems(3) by (simp add: assign_def sort_inv_def keys_put)
  qed
  have sub: "fst ` set (own ?t) \<subseteq> insert k (fst ` set (own t))"
    by (auto simp: assign_def keys_put)
  have le: "\<forall>a\<in>fst ` set (own ?t). \<forall>b\<in>set ks. a \<le> b"
  proof (intro ballI)
    fix a b assume a: "a \<in> fst ` set (own ?t)" and b: "b \<in> set ks"
    from a sub have "a = k \<or> a \<in> fst ` set (own t)" by auto
    then show "a \<le> b"
      using Cons.prems(2,4) b by auto
  qed
  from Cons.prems have "set ks \<subseteq> fst ` set (own s)" "sorted ks" by auto
  from Cons.IH [OF this inv le] obtain t' where
    t': "sort_loop s ks ?t = Inr t'" "sort_inv t'"
      "fst ` set (own t') \<subseteq> fst ` set (own ?t) \<union> set ks"
    by blast
  from t'(3) sub have "fst ` set (own t') \<subseteq> fst ` set (own t) \<union> set (k # ks)"
    by (simp only: set_simps) blast
  with vs t'(1,2) show ?case by simp
qed

lemma map_of_in_keys:
  "k \<in> fst ` set ps \<Longrightarrow> \<exists>vs. map_of ps k = Some vs \<and> (k, vs) \<in> set ps"
  by (induction ps) auto

lemma own_keys_no_index:
  "\<forall>k\<in>fst ` set (own s). \<not> is_index k \<Longrightarrow> own_keys s = map fst (own s)"
  by (simp add: own_keys_def Let_def filter_empty_conv)

lemma hasOwnProperty_callable_iff:
  "hasOwnProperty_callable s \<longleftrightarrow> js ''hasOwnProperty'' \<notin> fst ` set (own s)"
  by (simp add: hasOwnProperty_callable_def map_of_eq_None_iff)

text \<open>
  Claim C6 says that after \<open>sort()\<close> the names returned by \<open>keys()\<close> and the
  values of every name are in non-decreasing lexicographic order.  The names are not:
  \<open>keys()\<close> enumerates the properties of \<open>secret\<close>, and an object lists the names
  that are array indices first, in numeric order, whatever the order of creation.  After
  \<open>sort()\<close> on the collection of \<open>9=a&10=b\<close>, \<open>keys()\<close> is \<open>['9', '10']\<close>, and
  \<open>'9' > '10'\<close> as strings (\<open>C6_counterexample\<close>).  The claim holds where no name is
  an array index; \<open>sort()\<close> returns if no name is \<open>hasOwnProperty\<close>, which would hide
  the method that \<open>keys()\<close> calls.
\<close>

theorem C6_sort_orders_names_and_values:
  assumes "hasOwnProperty_callable s" and "\<forall>k\<in>fst ` set (own s). \<not> is_index k"
  shows "\<exists>s'. sort_js s = Inr s' \<and>
           (\<exists>ks. keys s' = Inr ks \<and> sorted ks \<and>
                 (\<forall>n\<in>set ks. \<exists>vs. getAll n s' = Inr (Arr vs) \<and> sorted vs))"
proof -
  have k: "keys s = Inr (own_keys s)"
    using assms(1) by (simp add: keys_eq)
  have "sort_inv empty_object"
    by (simp add: sort_inv_def empty_object_def)
  moreover have "set (sort (own_keys s)) \<subseteq> fst ` set (own s)"
    by (simp add: set_own_keys)
  ultimately obtain s' where s': "sort_loop s (sort (own_keys s)) empty_object = Inr s'"
      "sort_inv s'" "fst ` set (own s') \<subseteq> fst ` set (own empty_object) \<union> set (sort (own_keys s))"
    using sort_loop_inv [of "sort (own_keys s)" s empty_object]
    by (auto simp: empty_object_def)
  then have sub: "fst ` set (own s') \<subseteq> fst ` set (own s)"
    by (simp add: empty_object_def set_own_keys)
  have call: "hasOwnProperty_callable s'"
    using assms(1) sub by (auto simp: hasOwnProperty_callable_iff)
  have noidx: "\<forall>k\<in>fst ` set (own s'). \<not> is_index k"
    using assms(2) sub by blast
  have ks: "keys s' = Inr (map fst (own s'))"
    using call noidx by (simp add: keys_eq own_keys_no_index)
  have vals: "\<exists>vs. getAll n s' = Inr (Arr vs) \<and> sorted vs" if "n \<in> set (map fst (own s'))" for n
  proof -
    from that obtain vs where vs: "map_of (own s') n = Some vs" "(n, vs) \<in> set (own s')"
      using map_of_in_keys [of n "own s'"] by auto
    moreover have "n \<noteq> js ''__proto__''"
      using that s'(2) by (force simp: sort_inv_def)
    moreover have "sorted vs"
      using vs(2) s'(2) by (auto simp: sort_inv_def)
    ultimately show ?thesis
      by (simp add: getAll_def lookup_def)
  qed
  have "sorted (map fst (own s'))"
    using s'(2) by (simp add: sort_inv_def)
  with s'(1) k ks vals show ?thesis
    by (auto simp: sort_js_def)
qed

theorem C6_witness:
  "\<exists>s'. sort_js \<lparr>own = [(js ''name'', [js ''pxy'', js ''fiy'']), (js ''version'', [js ''1.0.0''])],
                  proto = None\<rparr> = Inr s' \<and>
         (\<exists>ks. keys s' = Inr ks \<and> sorted ks \<and>
               (\<forall>n\<in>set ks. \<exists>vs. getAll n s' = Inr (Arr vs) \<and> sorted vs))"
  using C6_sort_orders_names_and_values
    [of "\<lparr>own = [(js ''name'', [js ''pxy'', js ''fiy'']), (js ''version'', [js ''1.0.0''])],
          proto = None\<rparr>"]
  by (simp add: eval_defs)

theorem C6_counterexample:
  "constructor (QString (js ''9=a&10=b''))
     = Inr \<lparr>own = [(js ''9'', [js ''a'']), (js ''10'', [js ''b''])], proto = None\<rparr>
   \<and> sort_js \<lparr>own = [(js ''9'', [js ''a'']), (js ''10'', [js ''b''])], proto = None\<rparr>
     = Inr \<lparr>own = [(js ''10'', [js ''b'']), (js ''9'', [js ''a''])], proto = None\<rparr>
   \<and> keys \<lparr>own = [(js ''10'', [js ''b'']), (js ''9'', [js ''a''])], proto = None\<rparr>
     = Inr [js ''9'', js ''10'']
   \<and> \<not> sorted [js ''9'', js ''10'']"
  by (simp add: eval_defs)

subsection \<open>Names in first-seen order\<close>

lemma proto_name: "js ''__proto__'' \<in> set object_prototype_names"
  by (simp add: object_prototype_names_def)

lemma hasOwnProperty_name: "js ''hasOwnProperty'' \<in> set object_prototype_names"
  by (simp add: object_prototype_names_def)

lemma push_value_keeps:
  assumes "push_value name val s = (None, s')" "proto s = None"
     "name \<noteq> js ''__proto__''"
  shows "proto s' = None \<and> map fst (own s') = map fst (own s)"
  using assms
  by (auto simp: push_value_def lookup_def map_fst_put inherited_def
      split: sum.splits slot.splits option.splits if_splits dest!: map_of_SomeD)
     (force)+

lemma push_values_keeps:
  assumes "push_values name vals s = (None, s')" "proto s = None"
     "name \<noteq> js ''__proto__''"
  shows "proto s' = None \<and> map fst (own s') = map fst (own s)"
  using assms
proof (induction vals arbitrary: s)
  case Nil
  then show ?case by simp
next
  case (Cons v vals)
  then obtain s1 where s1: "push_value name v s = (None, s1)" "push_values name vals s1 = (None, s')"
    by (auto split: prod.splits option.splits)
  from push_value_keeps [OF s1(1) Cons.prems(2,3)] Cons.IH [OF s1(2)] Cons.prems(3)
  show ?case by simp
qed

lemma map_fst_delete:
  "map fst (filter (\<lambda>p. fst p \<noteq> name) ps) = removeAll name (map fst ps)"
  by (induction ps) auto

lemma plain_lookup_truthy:
  assumes "proto s = None" "name \<notin> set object_prototype_names"
  shows "slot_truthy (lookup name s) \<longleftrightarrow> name \<in> fst ` set (own s)"
proof -
  have n: "name \<noteq> js ''__proto__''" using assms(2) proto_name by auto
  show ?thesis
  proof (cases "map_of (own s) name")
    case None
    then have "name \<notin> fst ` set (own s)" by (simp add: map_of_eq_None_iff)
    with None n assms show ?thesis by (simp add: lookup_def inherited_def)
  next
    case (Some vs)
    then have "name \<in> fst ` set (own s)" by (force dest: map_of_SomeD)
    with Some n show ?thesis by (simp add: lookup_def)
  qed
qed

lemma append_js_eq:
  "append_js name v s =
     (if name = [] \<or> \<not> truthy v then (None, s)
      else if iterable v
        then push_values name (value_strings v)
          (if \<not> slot_truthy (lookup name s) then assign name [] s else s)
        else (Some TypeError, if \<not> slot_truthy (lookup name s) then assign name [] s else s))"
  by (cases v) (simp_all add: append_js_def Let_def)

lemma perform_plain:
  assumes "perform c s = (None, s')" "plain_call c" "plain_object s"
  shows "plain_object s' \<and> map fst (own s') = first_seen_step (map fst (own s)) c"
proof (cases c)
  case (Append name v)
  have n: "name \<noteq> js ''__proto__''" "\<not> is_index name" "name \<notin> set object_prototype_names"
      "v \<noteq> Arr []"
    using assms(2) Append proto_name by (auto simp: plain_call_def)
  show ?thesis
  proof (cases "name = [] \<or> \<not> truthy v")
    case True
    with assms Append show ?thesis by (auto simp: append_js_def)
  next
    case False
    define s1 where "s1 = (if \<not> slot_truthy (lookup name s) then assign name [] s else s)"
    have p1: "proto s1 = None"
      using assms(3) n(1) by (simp add: s1_def assign_def plain_object_def)
    have k1: "map fst (own s1) = (if name \<in> fst ` set (own s) then map fst (own s)
                                  else map fst (own s) @ [name])"
      using assms(3) n plain_lookup_truthy [of s name]
      by (auto simp: s1_def assign_def plain_object_def map_fst_put)
    from assms(1) Append False obtain vals where "push_values name vals s1 = (None, s')"
      by (auto simp: append_js_eq s1_def split: if_splits)
    from push_values_keeps [OF this p1 n(1)]
    have s': "proto s' = None" "map fst (own s') = map fst (own s1)" by auto
    have "fst ` set (own s') = set (map fst (own s'))" by simp
    with s' k1 assms(3) n False Append show ?thesis
      unfolding plain_object_def by (auto simp: image_iff)
  qed
next
  case (Set name v)
  have n: "name \<noteq> js ''__proto__''" "\<not> is_index name" "name \<notin> set object_prototype_names"
    using assms(2) Set proto_name by (auto simp: plain_call_def)
  from assms(1) Set have s': "s' = assign name [to_string v] s" by (simp add: set_js_def)
  with n assms(3) Set show ?thesis
    by (auto simp: plain_object_def assign_def map_fst_put keys_put)
next
  case (Delete name)
  from assms(1) Delete have s': "s' = delete name s" by simp
  with assms(3) Delete show ?thesis
    by (auto simp: plain_object_def delete_def map_fst_delete distinct_removeAll)
qed

lemma perform_all_plain:
  assumes "perform_all cs s = (None, s')" "\<forall>c\<in>set cs. plain_call c" "plain_object s"
  shows "plain_object s' \<and> map fst (own s') = foldl first_seen_step (map fst (own s)) cs"
  using assms
proof (induction cs arbitrary: s)
  case Nil
  then show ?case by simp
next
  case (Cons c cs)
  then obtain s1 where s1: "perform c s = (None, s1)" "perform_all cs s1 = (None, s')"
    by (auto split: prod.splits option.splits)
  from perform_plain [OF s1(1)] Cons.prems have "plain_object s1"
    "map fst (own s1) = first_seen_step (map fst (own s)) c" by auto
  with Cons.IH [OF s1(2)] Cons.prems(2) show ?case by simp
qed

lemma perform_all_append:
  "perform_all (xs @ ys) s =
     (case perform_all xs s of
        (Some e, s') \<Rightarrow> (Some e, s')
      | (None, s') \<Rightarrow> perform_all ys s')"
  by (induction xs arbitrary: s) (auto split: prod.splits option.splits)

lemma append_each_perform:
  "append_each ps s = perform_all (map (\<lambda>(name, v). Append name v) ps) s"
  by (induction ps s rule: append_each.induct) (auto split: prod.splits option.splits)

lemma object_loop_callable: "object_loop True ps s = append_each ps s"
  by (induction ps arbitrary: s) (auto split: prod.splits option.splits)

lemma object_loop_perform:
  "object_loop callable ps s = (None, s') \<Longrightarrow>
     perform_all (map (\<lambda>(name, v). Append name v) ps) s = (None, s')"
  by (cases callable; cases ps) (auto simp: object_loop_callable append_each_perform)

lemma build_perform:
  assumes "build query cs = Inr s"
  shows "perform_all (construction_calls query @ cs) empty_object = (None, s)"
proof -
  from assms obtain s0 where s0: "constructor query = Inr s0" "perform_all cs s0 = (None, s)"
    by (auto simp: build_def split: sum.splits prod.splits option.splits)
  from s0(1) have "perform_all (construction_calls query) empty_object = (None, s0)"
    by (cases query)
      (auto simp: constructor_def construction_calls_def append_each_perform
        dest: object_loop_perform split: prod.splits option.splits)
  with s0(2) show ?thesis by (simp add: perform_all_append)
qed

lemma plain_empty: "plain_object empty_object"
  by (simp add: plain_object_def empty_object_def)

text \<open>
  Claim C7 says that \<open>keys()\<close> returns the distinct names in first-seen order and
  that \<open>forEach\<close>, \<open>values\<close> and \<open>entries\<close> visit the names in that order.  A name
  that is an array index is enumerated before every other name, whenever it was added:
  the collection of \<open>b=x&1=y\<close> has \<open>keys() = ['1', 'b']\<close> (\<open>C7_counterexample\<close>).
  The claim holds for the sequences of calls that complete and use no array index and no
  name of \<open>Object.prototype\<close>; \<open>append\<close> with an empty sequence is left aside.
\<close>

theorem C7_keys_in_first_seen_order:
  assumes "build query cs = Inr s"
    and "\<forall>c\<in>set (construction_calls query @ cs). plain_call c"
  shows "keys s = Inr (first_seen_spec query cs)
     \<and> distinct (first_seen_spec query cs)
     \<and> forEach callback s acc = each_name callback s (first_seen_spec query cs) acc
     \<and> entries s = Inr (pairs s (first_seen_spec query cs))
     \<and> values s = Inr (map snd (pairs s (first_seen_spec query cs)))"
proof -
  from perform_all_plain [OF build_perform [OF assms(1)] assms(2) plain_empty]
  have p: "plain_object s" and k: "map fst (own s) = first_seen_spec query cs"
    by (simp_all add: first_seen_spec_def empty_object_def)
  from p have "\<forall>k\<in>fst ` set (own s). \<not> is_index k"
    by (simp add: plain_object_def)
  then have ok: "own_keys s = first_seen_spec query cs"
    using k by (simp add: own_keys_no_index)
  from p hasOwnProperty_name have call: "hasOwnProperty_callable s"
    by (auto simp: plain_object_def hasOwnProperty_callable_iff)
  from p k have "distinct (first_seen_spec query cs)"
    by (simp add: plain_object_def)
  with ok call show ?thesis
    by (simp add: keys_eq entries_eq values_eq forEach_def)
qed

text \<open>The definitions unfolded to run a sequence of calls.\<close>

lemmas trace_defs = build_def construction_calls_def first_seen_spec_def plain_call_def
  pairs_def own_values_def

theorem C7_witness:
  "build (QString (js ''b=1&a=2&b=3'')) [Append (js ''a'') (Str (js ''4'')), Set (js ''c'') (Str (js ''x'')),
      Delete (js ''b''), Append (js ''b'') (Arr [js ''5'', js ''6''])]
     = Inr \<lparr>own = [(js ''a'', [js ''2'', js ''4'']), (js ''c'', [js ''x'']),
                   (js ''b'', [js ''5'', js ''6''])], proto = None\<rparr>
   \<and> keys \<lparr>own = [(js ''a'', [js ''2'', js ''4'']), (js ''c'', [js ''x'']),
                   (js ''b'', [js ''5'', js ''6''])], proto = None\<rparr>
     = Inr [js ''a'', js ''c'', js ''b'']
   \<and> entries \<lparr>own = [(js ''a'', [js ''2'', js ''4'']), (js ''c'', [js ''x'']),
                   (js ''b'', [js ''5'', js ''6''])], proto = None\<rparr>
     = Inr [(js ''a'', js ''2''), (js ''a'', js ''4''), (js ''c'', js ''x''),
            (js ''b'', js ''5''), (js ''b'', js ''6'')]"
proof -
  let ?q = "QString (js ''b=1&a=2&b=3'')"
  let ?cs = "[Append (js ''a'') (Str (js ''4'')), Set (js ''c'') (Str (js ''x'')),
      Delete (js ''b''), Append (js ''b'') (Arr [js ''5'', js ''6''])]"
  let ?s = "\<lparr>own = [(js ''a'', [js ''2'', js ''4'']), (js ''c'', [js ''x'']),
                   (js ''b'', [js ''5'', js ''6''])], proto = None\<rparr>"
  have b: "build ?q ?cs = Inr ?s"
    by (simp add: trace_defs eval_defs)
  have pl: "\<forall>c\<in>set (construction_calls ?q @ ?cs). plain_call c"
    by (simp add: trace_defs eval_defs)
  have fs: "first_seen_spec ?q ?cs = [js ''a'', js ''c'', js ''b'']"
    by (simp add: trace_defs eval_defs)
  note c7 = C7_keys_in_first_seen_order [OF b pl, where callback = "None :: unit callback option"
      and acc = "()"]
  have "keys ?s = Inr [js ''a'', js ''c'', js ''b'']"
    using c7 [THEN conjunct1] fs by simp
  moreover have "entries ?s = Inr (pairs ?s [js ''a'', js ''c'', js ''b''])"
    using c7 [THEN conjunct2, THEN conjunct2, THEN conjunct2, THEN conjunct1] fs by simp
  moreover have "pairs ?s [js ''a'', js ''c'', js ''b'']
     = [(js ''a'', js ''2''), (js ''a'', js ''4''), (js ''c'', js ''x''),
            (js ''b'', js ''5''), (js ''b'', js ''6'')]"
    by (simp add: trace_defs js_def)
  ultimately show ?thesis using b by simp
qed

theorem C7_counterexample:
  "build (QString (js ''b=x&1=y'')) []
     = Inr \<lparr>own = [(js ''b'', [js ''x'']), (js ''1'', [js ''y''])], proto = None\<rparr>
   \<and> first_seen_spec (QString (js ''b=x&1=y'')) [] = [js ''b'', js ''1'']
   \<and> keys \<lparr>own = [(js ''b'', [js ''x'']), (js ''1'', [js ''y''])], proto = None\<rparr>
     = Inr [js ''1'', js ''b'']
   \<and> entries \<lparr>own = [(js ''b'', [js ''x'']), (js ''1'', [js ''y''])], proto = None\<rparr>
     = Inr [(js ''1'', js ''y''), (js ''b'', js ''x'')]"
  by (simp add: trace_defs eval_defs)

subsection \<open>Which calls raise\<close>

























subsection \<open>Encoding and then decoding\<close>

lemma unat_of_nat16: "k < 65536 \<Longrightarrow> unat (of_nat k :: 16 word) = k"
  by (simp only: unat_of_nat) simp

lemma of_nat_unat16: "of_nat (unat c) = (c :: 16 word)"
  by simp

lemma lt16_cases:
  "n < 16 \<Longrightarrow> n \<in> {0, 1, 2, 3, 4, 5, 6, 7, 8, 9, 10, 11, 12, 13, 14, 15 :: nat}"
  by simp arith

lemma hex_val_hex_digit: "n < 16 \<Longrightarrow> hex_val (hex_digit n) = Some n"
  by (drule lt16_cases) (auto simp: hex_val_def hex_digit_def)

lemma hex_digit_neq:
  assumes "n < 16"
  shows "hex_digit n \<noteq> 37" "hex_digit n \<noteq> 43" "hex_digit n \<noteq> 38" "hex_digit n \<noteq> 61"
    "hex_digit n \<noteq> 63" "hex_digit n \<notin> {33, 39, 40, 41, 126}"
  using lt16_cases [OF assms] by (auto simp: hex_digit_def)

lemma hex_digit_48: "n < 16 \<Longrightarrow> hex_digit n = 48 \<longleftrightarrow> n = 0"
  by (drule lt16_cases) (auto simp: hex_digit_def)

lemma hex_digit_50: "n < 16 \<Longrightarrow> hex_digit n = 50 \<longleftrightarrow> n = 2"
  by (drule lt16_cases) (auto simp: hex_digit_def)

lemma percent_octet_escape:
  "b < 256 \<Longrightarrow> percent_octet (escape_octet b @ x) = Some (b, x)"
  by (simp add: escape_octet_def hex_val_hex_digit)

lemma replace_plus_escape:
  "b < 256 \<Longrightarrow> replace_char 0x2B [] (escape_octet b @ x) = escape_octet b @ replace_char 0x2B [] x"
  using hex_digit_neq(2) [of "b div 16"] hex_digit_neq(2) [of "b mod 16"]
  by (simp add: escape_octet_def)

lemma replace_matches_escape:
  assumes "b < 256"
  shows "replace_matches (escape_octet b @ r) =
     (if b = 32 then [43] else if b = 0 then [0] else escape_octet b) @ replace_matches r"
proof -
  let ?h = "hex_digit (b div 16)" and ?l = "hex_digit (b mod 16)"
  from assms have d: "b div 16 < 16" "b mod 16 < 16" by auto
  have h: "?h \<noteq> 37" "?h \<notin> {33, 39, 40, 41, 126}" "?l \<noteq> 37" "?l \<notin> {33, 39, 40, 41, 126}"
    using hex_digit_neq [OF d(1)] hex_digit_neq [OF d(2)] by auto
  have s: "?h = 50 \<and> ?l = 48 \<longleftrightarrow> b = 32" "?h = 48 \<and> ?l = 48 \<longleftrightarrow> b = 0"
    using d assms by (auto simp: hex_digit_50 hex_digit_48)
  have tail: "replace_matches (?h # ?l # r) = ?h # ?l # replace_matches r"
    using h by (simp add: replace_matches_Cons del: replace_matches.simps(2) insert_iff)
  show ?thesis
    using h s tail
    by (auto simp: escape_octet_def replace_matches_Cons
        simp del: replace_matches.simps(2))
qed

lemma m32: "d < 32 \<Longrightarrow> (192 + d) mod 32 = (d::nat)"
  using mod_mult_self2 [of d 32 6] by (simp add: add.commute)
lemma m16: "d < 16 \<Longrightarrow> (224 + d) mod 16 = (d::nat)"
  using mod_mult_self2 [of d 16 14] by (simp add: add.commute)
lemma m8: "d < 8 \<Longrightarrow> (240 + d) mod 8 = (d::nat)"
  using mod_mult_self2 [of d 8 30] by (simp add: add.commute)
lemma m64: "r < 64 \<Longrightarrow> (128 + r) mod 64 = (r::nat)"
  using mod_mult_self2 [of r 64 2] by (simp add: add.commute)
lemma regroup: "(a::nat) * (m * n) + b * n = (a * m + b) * n"
  by (simp add: algebra_simps)
lemma split3: "(v::nat) div 4096 * 4096 + v div 64 mod 64 * 64 + v mod 64 = v"
proof -
  define q where "q = v div 64"
  have d: "v div 4096 = q div 64" by (simp add: q_def div_mult2_eq [symmetric])
  have "q div 64 * 4096 + q mod 64 * 64 = (q div 64 * 64 + q mod 64) * 64"
    using regroup [of "q div 64" 64 64 "q mod 64"] by simp
  also have "\<dots> = q * 64" by (simp only: div_mult_mod_eq)
  finally have "v div 4096 * 4096 + v div 64 mod 64 * 64 = v div 64 * 64"
    unfolding d q_def [symmetric] .
  then show ?thesis by simp
qed
lemma split4: "(v::nat) div 262144 * 262144 + v div 4096 mod 64 * 4096 + v div 64 mod 64 * 64 + v mod 64 = v"
proof -
  define q where "q = v div 4096"
  have d: "v div 262144 = q div 64" by (simp add: q_def div_mult2_eq [symmetric])
  have "q div 64 * 262144 + q mod 64 * 4096 = (q div 64 * 64 + q mod 64) * 4096"
    using regroup [of "q div 64" 64 4096 "q mod 64"] by simp
  also have "\<dots> = q * 4096" by (simp only: div_mult_mod_eq)
  finally have "v div 262144 * 262144 + v div 4096 mod 64 * 4096 = v div 4096 * 4096"
    unfolding d q_def [symmetric] .
  with split3 [of v] show ?thesis by simp
qed

lemma percent_octet_head: "percent_octet z = Some (b, rest) \<Longrightarrow> \<exists>t. z = 37 # t"
  by (cases z rule: percent_octet.cases) (auto split: if_splits)

lemma decode_escape:
  assumes "escape_sequence z = Some (units, rest)"
  shows "decodeURIComponent z =
     (case decodeURIComponent rest of Inl e \<Rightarrow> Inl e | Inr r \<Rightarrow> Inr (units @ r))"
proof -
  from assms obtain b r0 where "percent_octet z = Some (b, r0)"
    by (auto simp: escape_sequence_def split: option.splits)
  then obtain t where "z = 37 # t" using percent_octet_head by blast
  with assms show ?thesis by simp
qed

lemma continuation_octet_escape:
  "128 \<le> b \<Longrightarrow> b < 192 \<Longrightarrow> continuation_octet (escape_octet b @ x) = Some (b, x)"
  by (simp add: continuation_octet_def percent_octet_escape)

lemma escape_sequence_one:
  "v < 128 \<Longrightarrow> escape_sequence (escape_code_point v @ x) = Some (utf16_units v, x)"
  by (simp add: escape_code_point_def utf8_octets_def escape_sequence_def
      percent_octet_escape utf16_units_def)

lemma escape_sequence_two:
  assumes "128 \<le> v" "v < 2048"
  shows "escape_sequence (escape_code_point v @ x) = Some (utf16_units v, x)"
proof -
  define b0 b1 where "b0 = 192 + v div 64" and "b1 = 128 + v mod 64"
  have r0: "192 \<le> b0" "b0 < 224" and r1: "128 \<le> b1" "b1 < 192"
    using assms by (auto simp: b0_def b1_def)
  have m: "b0 mod 32 = v div 64" "b1 mod 64 = v mod 64"
    using assms m32 [of "v div 64"] m64 [of "v mod 64"] by (auto simp: b0_def b1_def)
  have e: "escape_code_point v @ x = escape_octet b0 @ escape_octet b1 @ x"
    using assms by (simp add: escape_code_point_def utf8_octets_def b0_def b1_def)
  have "two_octets b0 (escape_octet b1 @ x) = Some (utf16_units v, x)"
    using assms r1 by (simp add: two_octets_def continuation_octet_escape m)
  then show ?thesis
    unfolding e using r0 by (simp add: escape_sequence_def percent_octet_escape)
qed

lemma escape_sequence_three:
  assumes "2048 \<le> v" "v < 65536" "\<not> (55296 \<le> v \<and> v < 57344)"
  shows "escape_sequence (escape_code_point v @ x) = Some (utf16_units v, x)"
proof -
  define b0 b1 b2 where "b0 = 224 + v div 4096" and "b1 = 128 + v div 64 mod 64"
    and "b2 = 128 + v mod 64"
  have r0: "224 \<le> b0" "b0 < 240" and r1: "128 \<le> b1" "b1 < 192" and r2: "128 \<le> b2" "b2 < 192"
    using assms by (auto simp: b0_def b1_def b2_def)
  have m: "b0 mod 16 = v div 4096" "b1 mod 64 = v div 64 mod 64" "b2 mod 64 = v mod 64"
    using assms m16 [of "v div 4096"] m64 [of "v div 64 mod 64"] m64 [of "v mod 64"]
    by (auto simp: b0_def b1_def b2_def)
  have e: "escape_code_point v @ x = escape_octet b0 @ escape_octet b1 @ escape_octet b2 @ x"
    using assms by (simp add: escape_code_point_def utf8_octets_def b0_def b1_def b2_def)
  have "three_octets b0 (escape_octet b1 @ escape_octet b2 @ x) = Some (utf16_units v, x)"
    using assms r1 r2 by (simp add: three_octets_def continuation_octet_escape m split3)
  then show ?thesis
    unfolding e using r0 by (simp add: escape_sequence_def percent_octet_escape)
qed

lemma escape_sequence_four:
  assumes "65536 \<le> v" "v < 1114112"
  shows "escape_sequence (escape_code_point v @ x) = Some (utf16_units v, x)"
proof -
  define b0 b1 b2 b3 where "b0 = 240 + v div 262144" and "b1 = 128 + v div 4096 mod 64"
    and "b2 = 128 + v div 64 mod 64" and "b3 = 128 + v mod 64"
  have r0: "240 \<le> b0" "b0 < 248" and r1: "128 \<le> b1" "b1 < 192" and r2: "128 \<le> b2" "b2 < 192"
    and r3: "128 \<le> b3" "b3 < 192"
    using less_mult_imp_div_less [of v 8 262144] assms
    by (auto simp: b0_def b1_def b2_def b3_def)
  have d8: "v div 262144 < 8"
    using assms(2) by (intro less_mult_imp_div_less) simp
  have m: "b0 mod 8 = v div 262144" "b1 mod 64 = v div 4096 mod 64"
      "b2 mod 64 = v div 64 mod 64" "b3 mod 64 = v mod 64"
    using d8 m8 [of "v div 262144"] m64 [of "v div 4096 mod 64"] m64 [of "v div 64 mod 64"]
      m64 [of "v mod 64"]
    by (auto simp: b0_def b1_def b2_def b3_def)
  have e: "escape_code_point v @ x
      = escape_octet b0 @ escape_octet b1 @ escape_octet b2 @ escape_octet b3 @ x"
    using assms by (simp add: escape_code_point_def utf8_octets_def b0_def b1_def b2_def b3_def)
  have "four_octets b0 (escape_octet b1 @ escape_octet b2 @ escape_octet b3 @ x)
      = Some (utf16_units v, x)"
    using assms r1 r2 r3 by (simp add: four_octets_def continuation_octet_escape m split4)
  then show ?thesis
    unfolding e using r0 by (simp add: escape_sequence_def percent_octet_escape)
qed

lemma escape_sequence_code_point:
  assumes "v < 1114112" "\<not> (55296 \<le> v \<and> v < 57344)"
  shows "escape_sequence (escape_code_point v @ x) = Some (utf16_units v, x)"
proof -
  consider (one) "v < 128" | (two) "128 \<le> v" "v < 2048" | (three) "2048 \<le> v" "v < 65536"
    | (four) "65536 \<le> v"
    by linarith
  then show ?thesis
    using assms
    by cases (simp_all add: escape_sequence_one escape_sequence_two escape_sequence_three
        escape_sequence_four)
qed

lemma replace_matches_escapes:
  assumes "\<forall>b\<in>set bs. b < 256 \<and> b \<noteq> 0 \<and> b \<noteq> 32"
  shows "replace_matches (concat (map escape_octet bs) @ r)
     = concat (map escape_octet bs) @ replace_matches r"
  using assms by (induction bs) (simp_all add: replace_matches_escape)

lemma replace_plus_escape_octet:
  "b < 256 \<Longrightarrow> replace_char 0x2B [] (escape_octet b) = escape_octet b"
  using replace_plus_escape [of b "[]"] by simp

lemma replace_plus_escapes:
  assumes "\<forall>b\<in>set bs. b < 256"
  shows "replace_char 0x2B [] (concat (map escape_octet bs)) = concat (map escape_octet bs)"
  using assms by (induction bs) (simp_all add: replace_plus_escape_octet)

lemma utf8_octets_bounds:
  assumes "v < 1114112"
  shows "\<forall>b\<in>set (utf8_octets v). b < 256 \<and> (v \<noteq> 0 \<longrightarrow> b \<noteq> 0) \<and> (v \<noteq> 32 \<longrightarrow> b \<noteq> 32)"
proof -
  have "v div 262144 < 8"
    using assms by (intro less_mult_imp_div_less) simp
  moreover have "v < 65536 \<Longrightarrow> v div 4096 < 16"
    by (intro less_mult_imp_div_less) simp
  moreover have "v < 2048 \<Longrightarrow> v div 64 < 32"
    by (intro less_mult_imp_div_less) simp
  ultimately show ?thesis
    by (auto simp: utf8_octets_def)
qed

lemma escaped_code_point_passes:
  assumes "v < 1114112" "v \<noteq> 0" "v \<noteq> 32"
  shows "replace_char 0x2B [] (replace_matches (escape_code_point v @ r))
     = escape_code_point v @ replace_char 0x2B [] (replace_matches r)"
  using utf8_octets_bounds [OF assms(1)] assms(2,3)
  by (simp add: escape_code_point_def replace_matches_escapes replace_plus_escapes)

lemma uri_unescaped_neq:
  assumes "uri_unescaped c"
  shows "c \<noteq> 37" "c \<noteq> 43" "c \<noteq> 32" "c \<noteq> 38" "c \<noteq> 61" "c \<noteq> 63" "c \<noteq> 0"
  using assms by (auto simp: uri_unescaped_def)

lemma charmap_escape:
  "c \<in> {33, 39, 40, 41, 126} \<Longrightarrow> charmap c = escape_code_point (unat c)"
  by (auto simp: charmap_def escape_code_point_def utf8_octets_def escape_octet_def hex_digit_def)

lemma utf16_units_bmp: "utf16_units (unat (c :: 16 word)) = [c]"
proof -
  have "unat c < 65536" using unsigned_less [of c, where ?'a = nat] by simp
  then show ?thesis by (simp add: utf16_units_def)
qed

lemma utf16_units_pair:
  assumes "high_surrogate c" "low_surrogate k"
  shows "utf16_units ((unat c - 55296) * 1024 + (unat k - 56320) + 65536) = [c, k]"
proof -
  define a b where "a = unat c - 55296" and "b = unat k - 56320"
  have ab: "b < 1024" "unat c = 55296 + a" "unat k = 56320 + b"
    using assms by (auto simp: a_def b_def high_surrogate_def low_surrogate_def)
  have "(a * 1024 + b) div 1024 = a" "(a * 1024 + b) mod 1024 = b"
    using ab(1) by simp_all
  then have "utf16_units (a * 1024 + b + 65536) = [of_nat (55296 + a), of_nat (56320 + b)]"
    by (simp add: utf16_units_def)
  also have "\<dots> = [of_nat (unat c), of_nat (unat k)]"
    by (simp only: ab)
  finally show ?thesis by (simp add: a_def b_def)
qed

lemma pair_bounds:
  assumes "high_surrogate c" "low_surrogate k"
  shows "65536 \<le> (unat c - 55296) * 1024 + (unat k - 56320) + 65536"
    "(unat c - 55296) * 1024 + (unat k - 56320) + 65536 < 1114112"
proof -
  have "unat c - 55296 \<le> 1023" "unat k - 56320 \<le> 1023"
    using assms by (auto simp: high_surrogate_def low_surrogate_def)
  then have "(unat c - 55296) * 1024 \<le> 1023 * 1024" by simp
  with \<open>unat k - 56320 \<le> 1023\<close>
  show "(unat c - 55296) * 1024 + (unat k - 56320) + 65536 < 1114112" by simp
qed simp

lemma decode_copy:
  "c \<noteq> 37 \<Longrightarrow> decodeURIComponent x = Inr r \<Longrightarrow> decodeURIComponent (c # x) = Inr (c # r)"
  by simp

lemma decode_code_point:
  assumes "v < 1114112" "\<not> (55296 \<le> v \<and> v < 57344)" "decodeURIComponent x = Inr r"
  shows "decodeURIComponent (escape_code_point v @ x) = Inr (utf16_units v @ r)"
  using decode_escape [OF escape_sequence_code_point [OF assms(1,2), of x]] assms(3)
  by simp

lemma encode_then_decode:
  assumes "encodeURIComponent v = Inr ev" "32 \<notin> set v"
  shows "decodeURIComponent (replace_char 0x2B [] (replace_matches ev)) = Inr v"
  using assms
proof (induction v arbitrary: ev rule: encodeURIComponent.induct)
  case 1
  then show ?case by simp
next
  case (2 c s)
  from "2.prems"(2) have c32: "c \<noteq> 32" and s32: "32 \<notin> set s" by auto
  show ?case
  proof (cases "uri_unescaped c")
    case True
    with "2.prems"(1) obtain ev' where ev': "encodeURIComponent s = Inr ev'" "ev = c # ev'"
      by (auto split: sum.splits)
    from "2.IH"(1) [OF True ev'(1) s32]
    have IH: "decodeURIComponent (replace_char 0x2B [] (replace_matches ev')) = Inr s" .
    show ?thesis
    proof (cases "c \<in> {33, 39, 40, 41, 126}")
      case special: True
      then have u: "unat c < 128" "unat c \<noteq> 0" "unat c \<noteq> 32" by auto
      have "replace_matches ev = escape_code_point (unat c) @ replace_matches ev'"
        using special ev'(2)
        by (simp add: replace_matches_Cons charmap_escape del: replace_matches.simps(2) insert_iff)
      moreover have "replace_char 0x2B [] (escape_code_point (unat c))
          = escape_code_point (unat c)"
        using u utf8_octets_bounds [of "unat c"]
        by (simp add: escape_code_point_def replace_plus_escapes)
      ultimately have "replace_char 0x2B [] (replace_matches ev)
          = escape_code_point (unat c) @ replace_char 0x2B [] (replace_matches ev')"
        by simp
      then show ?thesis
        using decode_code_point [OF _ _ IH, of "unat c"] u by (simp add: utf16_units_bmp)
    next
      case False
      then have "replace_matches ev = c # replace_matches ev'"
        using ev'(2) uri_unescaped_neq(1) [OF True]
        by (simp add: replace_matches_Cons del: replace_matches.simps(2) insert_iff)
      then show ?thesis
        using IH uri_unescaped_neq(1,2) [OF True] by simp
    qed
  next
    case unesc: False
    show ?thesis
    proof (cases "low_surrogate c")
      case True
      with unesc "2.prems"(1) show ?thesis by simp
    next
      case nlow: False
      show ?thesis
      proof (cases "high_surrogate c")
        case nhigh: False
        with unesc nlow "2.prems"(1) obtain ev' where
          ev': "encodeURIComponent s = Inr ev'" "ev = escape_code_point (unat c) @ ev'"
          by (auto split: sum.splits)
        from "2.IH"(2) [OF unesc nlow nhigh ev'(1) s32]
        have IH: "decodeURIComponent (replace_char 0x2B [] (replace_matches ev')) = Inr s" .
        have lt: "unat c < 65536" using unsigned_less [of c, where ?'a = nat] by simp
        have ns: "\<not> (55296 \<le> unat c \<and> unat c < 57344)"
          using nlow nhigh by (auto simp: low_surrogate_def high_surrogate_def)
        have n32: "unat c \<noteq> 32"
        proof
          assume "unat c = 32"
          then have "c = of_nat 32" by (metis of_nat_unat16)
          with c32 show False by simp
        qed
        show ?thesis
        proof (cases "c = 0")
          case True
          then have "ev = escape_octet 0 @ ev'"
            using ev'(2) by (simp add: escape_code_point_def utf8_octets_def)
          then have "replace_matches ev = 0 # replace_matches ev'"
            by (simp add: replace_matches_escape del: replace_matches.simps(2))
          with IH True show ?thesis by simp
        next
          case False
          then have "unat c \<noteq> 0" by (simp add: unat_eq_0)
          with lt n32 have "replace_char 0x2B [] (replace_matches ev)
             = escape_code_point (unat c) @ replace_char 0x2B [] (replace_matches ev')"
            unfolding ev'(2) by (intro escaped_code_point_passes) simp_all
          then show ?thesis
            using decode_code_point [OF _ ns IH] lt by (simp add: utf16_units_bmp)
        qed
      next
        case high: True
        with unesc nlow "2.prems"(1) obtain k s' ev' where
          s: "s = k # s'" and k: "low_surrogate k" and
          ev': "encodeURIComponent s' = Inr ev'"
            "ev = escape_code_point ((unat c - 55296) * 1024 + (unat k - 56320) + 65536) @ ev'"
          by (auto split: sum.splits list.splits if_splits)
        let ?v = "(unat c - 55296) * 1024 + (unat k - 56320) + 65536"
        from s32 s have s32': "32 \<notin> set s'" by simp
        from "2.IH"(3) [OF unesc nlow _ s _ ev'(1) s32'] high k
        have IH: "decodeURIComponent (replace_char 0x2B [] (replace_matches ev')) = Inr s'"
          by simp
        note b = pair_bounds [OF high k]
        have "replace_char 0x2B [] (replace_matches ev)
             = escape_code_point ?v @ replace_char 0x2B [] (replace_matches ev')"
          unfolding ev'(2) using b by (intro escaped_code_point_passes) simp_all
        then show ?thesis
          using decode_code_point [OF b(2) _ IH] b(1) s
          by (simp add: utf16_units_pair [OF high k])
      qed
    qed
  qed
qed

lemma escape_octet_chars:
  assumes "b < 256"
  shows "38 \<notin> set (escape_octet b)" "61 \<notin> set (escape_octet b)" "63 \<notin> set (escape_octet b)"
proof -
  from assms have d: "b div 16 < 16" "b mod 16 < 16" by auto
  show "38 \<notin> set (escape_octet b)" "61 \<notin> set (escape_octet b)" "63 \<notin> set (escape_octet b)"
    using hex_digit_neq [OF d(1)] hex_digit_neq [OF d(2)]
    by (auto simp: escape_octet_def)
qed

lemma escape_code_point_chars:
  assumes "v < 1114112"
  shows "38 \<notin> set (escape_code_point v)" "61 \<notin> set (escape_code_point v)"
    "63 \<notin> set (escape_code_point v)"
  using utf8_octets_bounds [OF assms] escape_octet_chars
  by (auto simp: escape_code_point_def)

lemma escape_code_point_nonempty: "escape_code_point v \<noteq> []"
  by (simp add: escape_code_point_def utf8_octets_def escape_octet_def)

lemma encodeURIComponent_chars:
  assumes "encodeURIComponent v = Inr ev"
  shows "38 \<notin> set ev \<and> 61 \<notin> set ev \<and> 63 \<notin> set ev \<and> (v \<noteq> [] \<longrightarrow> ev \<noteq> [])"
  using assms
proof (induction v arbitrary: ev rule: encodeURIComponent.induct)
  case 1
  then show ?case by simp
next
  case (2 c s)
  have lt: "unat c < 1114112" using unsigned_less [of c, where ?'a = nat] by simp
  show ?case
  proof (cases "uri_unescaped c")
    case True
    with "2.prems" obtain ev' where ev': "encodeURIComponent s = Inr ev'" "ev = c # ev'"
      by (auto split: sum.splits)
    from "2.IH"(1) [OF True ev'(1)] ev'(2) uri_unescaped_neq [OF True] show ?thesis
      by auto
  next
    case unesc: False
    show ?thesis
    proof (cases "low_surrogate c")
      case True
      with unesc "2.prems" show ?thesis by simp
    next
      case nlow: False
      show ?thesis
      proof (cases "high_surrogate c")
        case nhigh: False
        with unesc nlow "2.prems" obtain ev' where
          ev': "encodeURIComponent s = Inr ev'" "ev = escape_code_point (unat c) @ ev'"
          by (auto split: sum.splits)
        from "2.IH"(2) [OF unesc nlow nhigh ev'(1)] ev'(2) escape_code_point_chars [OF lt]
          escape_code_point_nonempty [of "unat c"]
        show ?thesis by auto
      next
        case high: True
        with unesc nlow "2.prems" obtain k s' ev' where
          s: "s = k # s'" and k: "low_surrogate k" and
          ev': "encodeURIComponent s' = Inr ev'"
            "ev = escape_code_point ((unat c - 55296) * 1024 + (unat k - 56320) + 65536) @ ev'"
          by (auto split: sum.splits list.splits if_splits)
        from "2.IH"(3) [OF unesc nlow _ s _ ev'(1)] high k
        have IH: "38 \<notin> set ev' \<and> 61 \<notin> set ev' \<and> 63 \<notin> set ev'" by simp
        with ev'(2) escape_code_point_chars [OF pair_bounds(2) [OF high k]]
          escape_code_point_nonempty [of "(unat c - 55296) * 1024 + (unat k - 56320) + 65536"]
        show ?thesis by auto
      qed
    qed
  qed
qed

lemma replace_matches_chars:
  "x \<in> set (replace_matches r) \<Longrightarrow> x \<in> set r \<or> x \<in> {37, 50, 49, 55, 56, 57, 69, 43, 0}"
proof (induction r rule: length_induct)
  case (1 r)
  show ?case
  proof (cases r)
    case Nil
    with 1 show ?thesis by simp
  next
    case (Cons c s)
    have IH1: "x \<in> set (replace_matches s) \<Longrightarrow> x \<in> set s \<or> x \<in> {37, 50, 49, 55, 56, 57, 69, 43, 0}"
      using 1 Cons by simp
    have IH2: "x \<in> set (replace_matches (drop 2 s)) \<Longrightarrow>
        x \<in> set s \<or> x \<in> {37, 50, 49, 55, 56, 57, 69, 43, 0}"
    proof -
      assume a: "x \<in> set (replace_matches (drop 2 s))"
      have "length (drop 2 s) < length r" using Cons by simp
      with 1(1) a have "x \<in> set (drop 2 s) \<or> x \<in> {37, 50, 49, 55, 56, 57, 69, 43, 0}"
        by blast
      with set_drop_subset [of 2 s] show ?thesis by blast
    qed
    from 1(2) Cons IH1 IH2 show ?thesis
      by (auto simp: replace_matches_Cons charmap_def simp del: replace_matches.simps(2)
          split: if_splits)
  qed
qed

lemma replace_matches_nonempty: "r \<noteq> [] \<Longrightarrow> replace_matches r \<noteq> []"
  by (cases r) (auto simp: replace_matches_Cons charmap_def simp del: replace_matches.simps(2))

lemma encodeURI_chars:
  assumes "encodeURI v = Inr ev"
  shows "38 \<notin> set ev" "61 \<notin> set ev" "63 \<notin> set ev" "v \<noteq> [] \<Longrightarrow> ev \<noteq> []"
proof -
  from assms obtain r where r: "encodeURIComponent v = Inr r" "ev = replace_matches r"
    by (auto simp: encodeURI_def split: sum.splits)
  from encodeURIComponent_chars [OF r(1)] replace_matches_chars [of _ r] r(2)
  show "38 \<notin> set ev" "61 \<notin> set ev" "63 \<notin> set ev"
    by fastforce+
  show "ev \<noteq> []" if "v \<noteq> []"
    using that encodeURIComponent_chars [OF r(1)] r(2) replace_matches_nonempty by simp
qed

lemma encodeURI_roundtrip:
  assumes "encodeURI v = Inr ev" "32 \<notin> set v"
  shows "decodeURIComponent (replace_char 0x2B [] ev) = Inr v"
  using assms encode_then_decode by (auto simp: encodeURI_def split: sum.splits)

subsection \<open>The round trip through toString\<close>

lemma str_split_no_sep: "sep \<notin> set a \<Longrightarrow> str_split sep a = [a]"
  by (induction a) auto

lemma str_split_at_sep:
  "sep \<notin> set a \<Longrightarrow> str_split sep (a @ sep # b) = a # str_split sep b"
  by (induction a) auto

lemma str_split_join:
  assumes "segs \<noteq> []" "\<forall>seg\<in>set segs. sep \<notin> set seg"
  shows "str_split sep (str_join [sep] segs) = segs"
  using assms
proof (induction segs)
  case Nil
  then show ?case by simp
next
  case (Cons x xs)
  then show ?case
    by (cases xs) (simp_all add: str_split_no_sep str_split_at_sep)
qed

lemma parse_pair_segment:
  "61 \<notin> set n \<Longrightarrow> 61 \<notin> set ev \<Longrightarrow> parse_pair (n @ js ''='' @ ev) = (n, Str ev)"
  by (simp add: parse_pair_def js_def str_split_at_sep str_split_no_sep)

lemma put_absent: "k \<notin> fst ` set ps \<Longrightarrow> put k vs ps = ps @ [(k, vs)]"
  by (induction ps) auto

lemma put_last:
  "k \<notin> fst ` set pre \<Longrightarrow> put k x (pre @ [(k, acc)]) = pre @ [(k, x)]"
  by (induction pre) auto

lemma append_str_effect:
  assumes "proto s = None" "name \<noteq> []" "name \<notin> set object_prototype_names" "ev \<noteq> []"
    "decodeURIComponent (replace_char 0x2B [] ev) = Inr d"
  shows "append_js name (Str ev) s = (None, add_value name d s)"
proof -
  from assms(3) proto_name have np: "name \<noteq> js ''__proto__''" by auto
  show ?thesis
  proof (cases "map_of (own s) name")
    case None
    then have k: "name \<notin> fst ` set (own s)" by (simp add: map_of_eq_None_iff)
    from None np assms(1,3) have l: "lookup name s = Missing"
      by (simp add: lookup_def inherited_def)
    have l2: "lookup name (assign name [] s) = OwnArr []"
      using np by (simp add: lookup_assign_same)
    show ?thesis
      using assms(2,4,5) l l2 np k None
      by (simp add: append_js_def push_value_def add_value_def own_values_def assign_def
          put_absent put_last)
  next
    case (Some vs)
    then have l: "lookup name s = OwnArr vs" using np by (simp add: lookup_def)
    show ?thesis
      using assms(2,4,5) l Some
      by (simp add: append_js_def push_value_def add_value_def own_values_def)
  qed
qed

lemma tidy_add_value:
  assumes "tidy s" "name \<noteq> []" "name \<notin> set object_prototype_names"
  shows "tidy (add_value name d s)"
proof -
  have d: "distinct (map fst (put name (own_values s name @ [d]) (own s)))"
    using assms(1) by (auto simp: map_fst_put tidy_def)
  have p: "\<forall>p\<in>set (put name (own_values s name @ [d]) (own s)).
      fst p \<noteq> [] \<and> fst p \<notin> set object_prototype_names \<and> snd p \<noteq> []"
    using assms set_put [of name "own_values s name @ [d]" "own s"]
    by (auto simp: tidy_def)
  from d p assms(1) show ?thesis
    by (simp add: tidy_def add_value_def)
qed

lemma append_str_raises:
  assumes "proto s = None" "name \<noteq> []" "ev \<noteq> []" "map_of (own s) name = None"
    "name \<in> set object_prototype_names"
  shows "fst (append_js name (Str ev) s) \<noteq> None"
proof -
  have l: "lookup name s = Builtin"
    using assms by (simp add: lookup_def inherited_def)
  then show ?thesis
    using assms(2,3)
    by (simp add: append_js_def push_value_def split: sum.splits)
qed

lemma tidy_append:
  assumes "tidy s" "append_js name (Str ev) s = (None, s')"
  shows "tidy s' \<and> (name = [] \<or> ev = [] \<longrightarrow> s' = s)
     \<and> (name \<noteq> [] \<and> ev \<noteq> [] \<longrightarrow>
          (\<exists>d. decodeURIComponent (replace_char 0x2B [] ev) = Inr d \<and> s' = add_value name d s))"
proof (cases "name = [] \<or> ev = []")
  case True
  with assms show ?thesis by (auto simp: append_js_def)
next
  case False
  have p: "proto s = None" using assms(1) by (simp add: tidy_def)
  have n: "name \<notin> set object_prototype_names"
  proof
    assume a: "name \<in> set object_prototype_names"
    have "map_of (own s) name = None"
    proof (cases "map_of (own s) name")
      case (Some vs)
      then have "(name, vs) \<in> set (own s)" by (rule map_of_SomeD)
      with assms(1) a show ?thesis by (auto simp: tidy_def)
    qed simp
    with append_str_raises [OF p _ _ _ a, of ev] False assms(2) show False by simp
  qed
  obtain d where d: "decodeURIComponent (replace_char 0x2B [] ev) = Inr d"
  proof (cases "decodeURIComponent (replace_char 0x2B [] ev)")
    case (Inl e)
    with False assms(2) have False
      by (simp add: append_js_def push_value_def Let_def)
    then show ?thesis ..
  next
    case (Inr d)
    then show ?thesis by (rule that)
  qed
  from append_str_effect [OF p _ n _ d] False assms(2)
  have "s' = add_value name d s" by simp
  with d False n tidy_add_value [OF assms(1) _ n, of d] show ?thesis by auto
qed

lemma parse_pair_Str: "\<exists>n ev. parse_pair x = (n, Str ev)"
  by (auto simp: parse_pair_def split: list.splits)

lemma tidy_append_each:
  assumes "tidy s" "append_each (map parse_pair xs) s = (None, s')"
  shows "tidy s'"
  using assms
proof (induction xs arbitrary: s)
  case Nil
  then show ?case by simp
next
  case (Cons x xs)
  obtain n ev where x: "parse_pair x = (n, Str ev)"
    using parse_pair_Str by blast
  from Cons.prems(2) x obtain s1 where s1: "append_js n (Str ev) s = (None, s1)"
      "append_each (map parse_pair xs) s1 = (None, s')"
    by (auto split: prod.splits option.splits)
  from tidy_append [OF Cons.prems(1) s1(1)] have "tidy s1" by simp
  from Cons.IH [OF this s1(2)] show ?case .
qed

lemma tidy_empty: "tidy empty_object"
  by (simp add: tidy_def empty_object_def)

lemma constructor_tidy:
  assumes "constructor (QString q) = Inr c"
  shows "tidy c"
proof -
  from assms have "append_each (parse_query q) empty_object = (None, c)"
    by (auto simp: constructor_def split: prod.splits option.splits)
  then show ?thesis
    using tidy_append_each [OF tidy_empty] by (simp add: parse_query_def Let_def)
qed

lemma proto_add_value [simp]: "proto (add_value name d s) = proto s"
  by (simp add: add_value_def)

lemma proto_rebuild [simp]: "proto (rebuild es s) = proto s"
  unfolding rebuild_def by (induction es arbitrary: s) auto

lemma rebuild_Nil [simp]: "rebuild [] s = s"
  by (simp add: rebuild_def)

lemma rebuild_Cons [simp]: "rebuild ((name, d) # es) s = rebuild es (add_value name d s)"
  by (simp add: rebuild_def)

lemma rebuild_append: "rebuild (xs @ ys) s = rebuild ys (rebuild xs s)"
  by (simp add: rebuild_def)

lemma append_each_rebuild:
  assumes "list_all2 reparsed es ps" "proto s = None"
  shows "append_each ps s = (None, rebuild es s)"
  using assms
proof (induction es ps arbitrary: s rule: list_all2_induct)
  case Nil
  then show ?case by simp
next
  case (Cons e es p ps)
  obtain n d where e: "e = (n, d)" by (cases e)
  from Cons.hyps(1) e obtain ev where p: "p = (n, Str ev)" "n \<noteq> []"
      "n \<notin> set object_prototype_names" "ev \<noteq> []"
      "decodeURIComponent (replace_char 0x2B [] ev) = Inr d"
    by (cases p; cases "snd p") (auto simp: reparsed_def)
  from append_str_effect [OF Cons.prems p(2,3,4,5)]
  have "append_js n (Str ev) s = (None, add_value n d s)" .
  with Cons.IH [of "add_value n d s"] Cons.prems e p(1) show ?case by simp
qed

lemma map_of_last:
  "k \<notin> fst ` set pre \<Longrightarrow> map_of (pre @ [(k, acc)]) k = Some acc"
  by (induction pre) auto

lemma rebuild_group_tail:
  assumes "own s = pre @ [(k, acc)]" "k \<notin> fst ` set pre"
  shows "own (rebuild (map (Pair k) vs) s) = pre @ [(k, acc @ vs)]"
  using assms
proof (induction vs arbitrary: s acc)
  case Nil
  then show ?case by simp
next
  case (Cons v vs)
  have "map_of (own s) k = Some acc"
    unfolding Cons.prems(1) using Cons.prems(2) by (rule map_of_last)
  then have "own (add_value k v s) = pre @ [(k, acc @ [v])]"
    using Cons.prems(2) by (simp add: add_value_def own_values_def Cons.prems(1) put_last)
  from Cons.IH [OF this Cons.prems(2)] show ?case by simp
qed

lemma rebuild_group:
  assumes "k \<notin> fst ` set (own s)" "vs \<noteq> []"
  shows "own (rebuild (map (Pair k) vs) s) = own s @ [(k, vs)]"
proof -
  from assms(2) obtain v vs' where vs: "vs = v # vs'" by (cases vs) auto
  have "map_of (own s) k = None" using assms(1) by (simp add: map_of_eq_None_iff)
  then have "own (add_value k v s) = own s @ [(k, [v])]"
    using assms(1) by (simp add: add_value_def own_values_def put_absent)
  from rebuild_group_tail [OF this assms(1), of vs'] vs show ?thesis by simp
qed

lemma rebuild_groups:
  assumes "distinct ks" "set ks \<inter> fst ` set (own s) = {}" "\<forall>k\<in>set ks. g k \<noteq> []"
  shows "own (rebuild (concat (map (\<lambda>k. map (Pair k) (g k)) ks)) s)
     = own s @ map (\<lambda>k. (k, g k)) ks"
  using assms
proof (induction ks arbitrary: s)
  case Nil
  then show ?case by simp
next
  case (Cons k ks)
  let ?s = "rebuild (map (Pair k) (g k)) s"
  have o: "own ?s = own s @ [(k, g k)]"
    using Cons.prems by (intro rebuild_group) auto
  have "set ks \<inter> fst ` set (own ?s) = {}"
    using Cons.prems(1,2) unfolding o by auto
  from Cons.IH [OF _ this] Cons.prems(1,3) o show ?case
    by (simp add: rebuild_append)
qed

lemma own_keys_idem:
  assumes "map fst (own c') = own_keys c"
  shows "own_keys c' = own_keys c"
proof -
  define A where "A = sort_key index_of (filter is_index (map fst (own c)))"
  define B where "B = filter (\<lambda>k. \<not> is_index k) (map fst (own c))"
  have k: "own_keys c = A @ B" by (simp add: own_keys_def A_def B_def Let_def)
  have a: "filter is_index A = A" "filter (\<lambda>k. \<not> is_index k) A = []"
    by (auto simp: A_def filter_id_conv filter_empty_conv)
  have b: "filter is_index B = []" "filter (\<lambda>k. \<not> is_index k) B = B"
    by (auto simp: B_def filter_empty_conv)
  have "sorted (map index_of A)" by (simp add: A_def)
  then have s: "sort_key index_of A = A" by (rule sort_key_id_if_sorted)
  show ?thesis
    unfolding own_keys_def [of c'] assms k by (simp add: a b s Let_def)
qed

lemma distinct_own_keys: "distinct (map fst (own c)) \<Longrightarrow> distinct (own_keys c)"
  by (auto simp: own_keys_def Let_def)

lemma map_of_tabulate: "k \<in> set ks \<Longrightarrow> map_of (map (\<lambda>k. (k, g k)) ks) k = Some (g k)"
  by (induction ks) auto

lemma pairs_cong:
  assumes "\<forall>k\<in>set ks. own_values c' k = own_values c k"
  shows "pairs c' ks = pairs c ks"
  using assms by (simp add: pairs_def cong: map_cong)

lemma segments_structure:
  assumes "segments_spec es = Inr segs"
  shows "list_all2 (\<lambda>e seg. \<exists>en ev. encodeURI (fst e) = Inr en \<and> encodeURI (snd e) = Inr ev
            \<and> seg = en @ js ''='' @ ev) es segs"
  using assms
proof (induction es arbitrary: segs rule: segments_spec.induct)
  case 1
  then show ?case by simp
next
  case (2 name v es)
  from "2.prems" obtain en ev segs' where
    *: "encode_transform_spec name = Inr en" "encode_transform_spec v = Inr ev"
       "segments_spec es = Inr segs'" "segs = (en @ js ''='' @ ev) # segs'"
    by (auto split: sum.splits)
  from "2.IH" [OF *(1,2,3)] * show ?case
    by (simp add: encodeURI_spec)
qed

text \<open>
  Claim C4 says that for every valid query string, building the collection, writing it
  with \<open>toString\<close> and parsing the result gives the same entries in the same order.
  It fails in two ways (\<open>C4_counterexample\<close>).  A value with a space is written with
  \<open>+\<close>, which \<open>append\<close> deletes when it reads it back: \<open>a=b%20c\<close> is written
  \<open>a=b+c\<close> and read back as \<open>bc\<close>.  And \<open>toString\<close> encodes the names, which the
  constructor never decodes: \<open>a!=1\<close> is written \<open>a%21=1\<close> and read back under the
  name \<open>a%21\<close>.  The round trip holds when construction and \<open>toString\<close> succeed,
  every name is one that the encode transform leaves unchanged, and every stored value is
  non-empty and has no space.
\<close>

theorem C4_round_trip:
  assumes "constructor (QString q) = Inr c" and "toString c = Inr t" and "entries c = Inr es"
    and "\<forall>e\<in>set es. encodeURI (fst e) = Inr (fst e) \<and> snd e \<noteq> [] \<and> 32 \<notin> set (snd e)"
  shows "\<exists>c'. constructor (QString t) = Inr c' \<and> entries c' = Inr es"
proof -
  have tidy: "tidy c" by (rule constructor_tidy [OF assms(1)])
  have call: "hasOwnProperty_callable c"
    using assms(3) by (auto simp: entries_eq split: if_splits)
  have es: "es = pairs c (own_keys c)"
    using assms(3) call by (simp add: entries_eq)
  from assms(2) call obtain segs where
    segs: "segments_spec es = Inr segs" "t = str_join (js ''&'') segs"
    by (auto simp: toString_eq es split: sum.splits)
  have names: "fst e \<noteq> [] \<and> fst e \<notin> set object_prototype_names" if "e \<in> set es" for e
  proof -
    from that obtain k where k: "k \<in> set (own_keys c)" "fst e = k"
      by (auto simp: es pairs_def)
    then obtain vs where "(k, vs) \<in> set (own c)"
      using set_own_keys [of c] by auto
    with tidy k(2) show ?thesis by (auto simp: tidy_def)
  qed
  have rel: "list_all2 reparsed es (map parse_pair segs)"
    and amp: "\<forall>seg\<in>set segs. 38 \<notin> set seg"
    and hd: "\<forall>seg\<in>set segs. seg \<noteq> [] \<and> hd seg \<noteq> 63"
    using segments_structure [OF segs(1)] assms(4) names
  proof (induction es segs rule: list_all2_induct)
    case Nil
    {
      case 1 show ?case by simp
    next
      case 2 show ?case by simp
    next
      case 3 show ?case by simp
    }
  next
    case (Cons e es seg segs)
    from Cons.hyps(1) obtain en ev where
      en: "encodeURI (fst e) = Inr en" "encodeURI (snd e) = Inr ev" "seg = en @ js ''='' @ ev"
      by blast
    {
      case 1
      from "1"(1) en(1) have n: "en = fst e" "snd e \<noteq> []" "32 \<notin> set (snd e)" by auto
      from "1"(2) [of e] have ne: "fst e \<noteq> []" "fst e \<notin> set object_prototype_names" by auto
      have pp: "parse_pair seg = (fst e, Str ev)"
        unfolding en(3) n(1)
        using encodeURI_chars(2) [OF en(1)] encodeURI_chars(2) [OF en(2)] n(1)
        by (intro parse_pair_segment) auto
      have "reparsed e (parse_pair seg)"
        using pp ne encodeURI_chars(4) [OF en(2) n(2)] encodeURI_roundtrip [OF en(2) n(3)]
        by (simp add: reparsed_def)
      moreover have "list_all2 reparsed es (map parse_pair segs)"
        using Cons.IH(1) "1" by auto
      ultimately show ?case by simp
    next
      case 2
      have "38 \<notin> set seg"
        using encodeURI_chars(1) [OF en(1)] encodeURI_chars(1) [OF en(2)]
        by (simp add: en(3) js_def)
      moreover have "\<forall>seg\<in>set segs. 38 \<notin> set seg"
        using Cons.IH(2) "2" by auto
      ultimately show ?case by simp
    next
      case 3
      from "3"(1) en(1) have n: "en = fst e" by auto
      from "3"(2) [of e] have ne: "fst e \<noteq> []" by auto
      have "hd en \<in> set en" using n ne by simp
      with encodeURI_chars(3) [OF en(1)] have "hd en \<noteq> 63" by metis
      then have "seg \<noteq> [] \<and> hd seg \<noteq> 63"
        using n ne by (simp add: en(3))
      moreover have "\<forall>seg\<in>set segs. seg \<noteq> [] \<and> hd seg \<noteq> 63"
        using Cons.IH(3) "3" by auto
      ultimately show ?case by simp
    }
  qed
  have pq: "parse_query t = (if segs = [] then [([], Str [])] else map parse_pair segs)"
  proof (cases segs)
    case Nil
    with segs(2) show ?thesis by (simp add: parse_query_def parse_pair_def)
  next
    case (Cons seg segs')
    with hd obtain x xs where seg: "seg = x # xs" "x \<noteq> 63" by (cases seg) auto
    have "t = x # xs @ (if segs' = [] then [] else js ''&'' @ str_join (js ''&'') segs')"
      using segs(2) Cons seg(1) by (cases segs') simp_all
    then have "parse_query t = map parse_pair (str_split 38 t)"
      using seg(2) by (simp add: parse_query_def)
    also have "str_split 38 t = segs"
      unfolding segs(2) using str_split_join [of segs 38] amp Cons by (simp add: js_def)
    finally show ?thesis using Cons by simp
  qed
  show ?thesis
  proof (cases "segs = []")
    case True
    with rel have "es = []" by simp
    moreover have "constructor (QString t) = Inr empty_object"
      using pq True by (simp add: constructor_def append_js_def)
    moreover have "entries empty_object = Inr []"
      by (simp add: entries_eq hasOwnProperty_callable_def empty_object_def pairs_def
          own_keys_def)
    ultimately show ?thesis by simp
  next
    case False
    define c' where "c' = rebuild es empty_object"
    have "append_each (map parse_pair segs) empty_object = (None, c')"
      unfolding c'_def by (rule append_each_rebuild [OF rel]) (simp add: empty_object_def)
    then have con: "constructor (QString t) = Inr c'"
      using pq False by (simp add: constructor_def)
    have vals: "\<forall>k\<in>set (own_keys c). own_values c k \<noteq> []"
    proof
      fix k assume "k \<in> set (own_keys c)"
      then obtain vs where "map_of (own c) k = Some vs" "(k, vs) \<in> set (own c)"
        using map_of_in_keys [of k "own c"] set_own_keys [of c] by auto
      with tidy show "own_values c k \<noteq> []" by (auto simp: own_values_def tidy_def)
    qed
    have dist: "distinct (own_keys c)"
      using tidy by (intro distinct_own_keys) (simp add: tidy_def)
    have own: "own c' = map (\<lambda>k. (k, own_values c k)) (own_keys c)"
      unfolding c'_def es pairs_def
      using rebuild_groups [OF dist _ vals, of empty_object] by (simp add: empty_object_def)
    then have mk: "map fst (own c') = own_keys c" by (simp add: o_def)
    have ok: "own_keys c' = own_keys c" by (rule own_keys_idem [OF mk])
    have "fst ` set (own c') = fst ` set (own c)"
      using mk set_own_keys [of c] by (metis set_map)
    with call have call': "hasOwnProperty_callable c'"
      by (simp add: hasOwnProperty_callable_iff)
    have "pairs c' (own_keys c) = pairs c (own_keys c)"
      by (rule pairs_cong) (simp add: own_values_def own map_of_tabulate)
    with call' ok es have "entries c' = Inr es" by (simp add: entries_eq)
    with con show ?thesis by blast
  qed
qed

theorem C4_witness:
  "constructor (QString (js ''b=%E4%BD%A0&1=x!&b=y''))
     = Inr \<lparr>own = [(js ''b'', [[0x4F60], js ''y'']), (js ''1'', [js ''x!''])], proto = None\<rparr>
   \<and> toString \<lparr>own = [(js ''b'', [[0x4F60], js ''y'']), (js ''1'', [js ''x!''])], proto = None\<rparr>
     = Inr (js ''1=x%21&b=%E4%BD%A0&b=y'')
   \<and> entries \<lparr>own = [(js ''b'', [[0x4F60], js ''y'']), (js ''1'', [js ''x!''])], proto = None\<rparr>
     = Inr [(js ''1'', js ''x!''), (js ''b'', [0x4F60]), (js ''b'', js ''y'')]
   \<and> (\<exists>c'. constructor (QString (js ''1=x%21&b=%E4%BD%A0&b=y'')) = Inr c'
          \<and> entries c' = Inr [(js ''1'', js ''x!''), (js ''b'', [0x4F60]), (js ''b'', js ''y'')])"
proof -
  let ?c = "\<lparr>own = [(js ''b'', [[0x4F60], js ''y'']), (js ''1'', [js ''x!''])], proto = None\<rparr>"
  let ?es = "[(js ''1'', js ''x!''), (js ''b'', [0x4F60]), (js ''b'', js ''y'')]"
  have c: "constructor (QString (js ''b=%E4%BD%A0&1=x!&b=y'')) = Inr ?c"
    by (simp add: eval_defs)
  have t: "toString ?c = Inr (js ''1=x%21&b=%E4%BD%A0&b=y'')"
    by (simp add: eval_defs)
  have e: "entries ?c = Inr ?es"
    by (simp add: eval_defs)
  have h: "\<forall>e\<in>set ?es. encodeURI (fst e) = Inr (fst e) \<and> snd e \<noteq> [] \<and> 32 \<notin> set (snd e)"
    by (simp add: eval_defs)
  from C4_round_trip [OF c t e h] c t e show ?thesis by simp
qed

theorem C4_counterexample:
  "constructor (QString (js ''a=b%20c'')) = Inr \<lparr>own = [(js ''a'', [js ''b c''])], proto = None\<rparr>
   \<and> entries \<lparr>own = [(js ''a'', [js ''b c''])], proto = None\<rparr> = Inr [(js ''a'', js ''b c'')]
   \<and> toString \<lparr>own = [(js ''a'', [js ''b c''])], proto = None\<rparr> = Inr (js ''a=b+c'')
   \<and> constructor (QString (js ''a=b+c'')) = Inr \<lparr>own = [(js ''a'', [js ''bc''])], proto = None\<rparr>
   \<and> entries \<lparr>own = [(js ''a'', [js ''bc''])], proto = None\<rparr> = Inr [(js ''a'', js ''bc'')]
   \<and> constructor (QString (js ''a!=1'')) = Inr \<lparr>own = [(js ''a!'', [js ''1''])], proto = None\<rparr>
   \<and> toString \<lparr>own = [(js ''a!'', [js ''1''])], proto = None\<rparr> = Inr (js ''a%21=1'')
   \<and> constructor (QString (js ''a%21=1''))
       = Inr \<lparr>own = [(js ''a%21'', [js ''1''])], proto = None\<rparr>"
  by (simp add: eval_defs)

end
